theory Spec2Isabelle
  imports Complex_Main "HOL-Library.Monad_Syntax"
begin

section \<open>Incremental Voronoi diagrams: the data of \<^verbatim>\<open>ef.gy/voronoi.h\<close>\<close>

text \<open>
  A vector of the two-dimensional space \<^verbatim>\<open>S\<close> is a pair of scalars; the scalar type is
  the template parameter \<^verbatim>\<open>S::scalar\<close> and stays a type variable here, of a ring with
  exact arithmetic.
\<close>

type_synonym 'a vector = "'a \<times> 'a"

definition vadd :: "('a::ring_1) vector \<Rightarrow> 'a vector \<Rightarrow> 'a vector" where
  "vadd a b = (fst a + fst b, snd a + snd b)"

definition vsub :: "('a::ring_1) vector \<Rightarrow> 'a vector \<Rightarrow> 'a vector" where
  "vsub a b = (fst a - fst b, snd a - snd b)"

text \<open>
  \<^verbatim>\<open>polygon<S>\<close>: the vertex list \<^verbatim>\<open>data\<close> and a display colour. The type \<^verbatim>\<open>'c\<close> is the
  colour payload \<^verbatim>\<open>colour::HSLA<base>::value\<close>.
\<close>

record ('a, 'c) polygon =
  data :: "'a vector list"
  colour :: 'c

text \<open>\<^verbatim>\<open>voronoi::cell\<close> (lines 48-87): a site, its area and a colour.\<close>

record ('a, 'c) cell =
  site :: "'a vector"
  area :: "('a, 'c) polygon"
  colour :: 'c

text \<open>\<^verbatim>\<open>cell::operator ==\<close> (lines 79-82): two cells are equal when their sites are.\<close>

definition cell_eq :: "('a, 'c) cell \<Rightarrow> ('a, 'c) cell \<Rightarrow> bool" where
  "cell_eq a b = (site a = site b)"

text \<open>
  \<^verbatim>\<open>voronoi\<close> (line 282): the only member is \<^verbatim>\<open>math::set<cell> cells\<close>; the model keeps its
  \<^verbatim>\<open>data\<close> vector.
\<close>

record ('a, 'c) voronoi =
  cells :: "('a, 'c) cell list"

section \<open>Collaborators that are not part of \<^verbatim>\<open>voronoi.h\<close>\<close>

text \<open>
  The geometry operations that \<^verbatim>\<open>operator +\<close> calls live in \<^verbatim>\<open>ef.gy/geometry.h\<close> and
  \<^verbatim>\<open>ef.gy/euclidian.h\<close>. They are parameters of the model:
  \<^item> \<open>contains P q\<close> is \<^verbatim>\<open>P && q\<close> (point in polygon);
  \<^item> \<open>clip P l\<close> is \<^verbatim>\<open>P / l\<close>, a \<^verbatim>\<open>std::array<maybe<polygon<S> >,3>\<close>: two sides and a remainder;
  \<^item> \<open>poly_union P Q\<close> is \<^verbatim>\<open>P + Q\<close> on two polygons;
  \<^item> \<open>midpoint a b\<close> is \<^verbatim>\<open>line<S>(a, b).midpoint()\<close>;
  \<^item> \<open>getPerpendicular d\<close> is \<^verbatim>\<open>euclidian::getPerpendicular<base>(d)\<close>;
  \<^item> \<open>default_colour\<close> is the value-initialised colour \<^verbatim>\<open>colour::HSLA<base>::value()\<close>.
\<close>

record ('a, 'c) kernel =
  contains :: "('a, 'c) polygon \<Rightarrow> 'a vector \<Rightarrow> bool"
  clip :: "('a, 'c) polygon \<Rightarrow> 'a vector \<times> 'a vector \<Rightarrow>
           ('a, 'c) polygon option \<times> ('a, 'c) polygon option \<times> ('a, 'c) polygon option"
  poly_union :: "('a, 'c) polygon \<Rightarrow> ('a, 'c) polygon \<Rightarrow> ('a, 'c) polygon"
  midpoint :: "'a vector \<Rightarrow> 'a vector \<Rightarrow> 'a vector"
  getPerpendicular :: "'a vector \<Rightarrow> 'a vector"
  default_colour :: 'c

text \<open>
  Modelled from the spec: \<^verbatim>\<open>math::set<T>::operator +\<close> of \<^verbatim>\<open>ef.gy/set.h\<close>, which is not
  among the sources. The spec calls the cell collection a set whose membership is decided
  by equality of cells; adding an element that is already a member changes nothing, a
  new element goes to the end of \<^verbatim>\<open>data\<close>.
\<close>

definition set_plus :: "('t \<Rightarrow> 't \<Rightarrow> bool) \<Rightarrow> 't list \<Rightarrow> 't \<Rightarrow> 't list" where
  "set_plus eq xs x = (if list_ex (\<lambda>y. eq y x) xs then xs else xs @ [x])"

text \<open>
  Modelled from the spec: \<^verbatim>\<open>polygon + vector\<close> and \<^verbatim>\<open>polygon - vector\<close>, used on the
  worklist \<^verbatim>\<open>rC\<close>. The spec appends a vertex to the worklist and removes the popped point
  from it.
\<close>

definition poly_plus_point :: "('a, 'c) polygon \<Rightarrow> 'a vector \<Rightarrow> ('a, 'c) polygon" where
  "poly_plus_point P x = P\<lparr>data := data P @ [x]\<rparr>"

definition poly_minus_point :: "('a, 'c) polygon \<Rightarrow> 'a vector \<Rightarrow> ('a, 'c) polygon" where
  "poly_minus_point P q = P\<lparr>data := filter (\<lambda>y. y \<noteq> q) (data P)\<rparr>"

text \<open>
  The conversion of a \<^verbatim>\<open>maybe<polygon<S> >\<close> to a polygon (lines 165 and 224): nothing
  becomes the default polygon, which has no vertex.
\<close>

definition maybe_polygon :: "('a, 'c) kernel \<Rightarrow> ('a, 'c) polygon option \<Rightarrow> ('a, 'c) polygon" where
  "maybe_polygon K m =
     (case m of None \<Rightarrow> \<lparr>data = [], colour = default_colour K\<rparr> | Some P \<Rightarrow> P)"

section \<open>The constructors of a cell\<close>

text \<open>Lines 59-63: site, area and colour; the area takes the colour of the cell.\<close>

definition cell_of_area :: "'a vector \<Rightarrow> ('a, 'c) polygon \<Rightarrow> 'c \<Rightarrow> ('a, 'c) cell" where
  "cell_of_area pSite pArea pColour =
     \<lparr>site = pSite, area = pArea\<lparr>polygon.colour := pColour\<rparr>, colour = pColour\<rparr>"

text \<open>Lines 65-67: site and colour; the area is the default polygon.\<close>

definition cell_of_site :: "('a, 'c) kernel \<Rightarrow> 'a vector \<Rightarrow> 'c \<Rightarrow> ('a, 'c) cell" where
  "cell_of_site K pSite pColour =
     \<lparr>site = pSite, area = \<lparr>data = [], colour = default_colour K\<rparr>, colour = pColour\<rparr>"

section \<open>\<^verbatim>\<open>voronoi::operator + (const cell &)\<close>, lines 108-273\<close>

text \<open>
  Point location, lines 117-137: the loop stops at the first cell whose area contains
  \<open>v\<close> and leaves its index in \<^verbatim>\<open>nearestCell\<close>; \<open>None\<close> is \<^verbatim>\<open>!haveMatch\<close>.
\<close>

primrec locate :: "('a, 'c) kernel \<Rightarrow> ('a, 'c) cell list \<Rightarrow> 'a vector \<Rightarrow> nat option" where
  "locate K [] v = None"
| "locate K (c # cs) v =
     (if contains K (area c) v then Some 0 else map_option Suc (locate K cs v))"

text \<open>Lines 147-155 and 210-217: the two points of the perpendicular bisector.\<close>

definition perpendicularBisector ::
  "('a::ring_1, 'c) kernel \<Rightarrow> 'a vector \<Rightarrow> 'a vector \<Rightarrow> 'a vector \<times> 'a vector" where
  "perpendicularBisector K v u =
     (let d = vsub v u;
          m = midpoint K v u;
          p = getPerpendicular K d
      in (vadd m p, vsub m p))"

text \<open>
  Lines 171-172, 177-178, 228-229 and 234-235: a cell takes a new area, and the area takes
  the colour of the cell.
\<close>

definition assign_area :: "('a, 'c) cell \<Rightarrow> ('a, 'c) polygon \<Rightarrow> ('a, 'c) cell" where
  "assign_area c P = c\<lparr>area := P\<lparr>polygon.colour := cell.colour c\<rparr>\<rparr>"

text \<open>
  Lines 167-185, the split of the located cell: the side that contains the old site goes
  back to the old cell, the other side starts the new cell. \<open>None\<close> is the last branch
  (lines 181-185), where neither side contains the old site.
\<close>

definition split_cell ::
  "('a, 'c) kernel \<Rightarrow> ('a, 'c) cell list \<Rightarrow> nat \<Rightarrow> 'a vector \<Rightarrow> ('a, 'c) polygon \<Rightarrow>
   ('a, 'c) polygon \<Rightarrow> (('a, 'c) cell list \<times> ('a, 'c) polygon) option" where
  "split_cell K cs nearestCell nearest rA rB =
     (if contains K rA nearest
        then Some (cs[nearestCell := assign_area (cs ! nearestCell) rA], rB)
      else if contains K rB nearest
        then Some (cs[nearestCell := assign_area (cs ! nearestCell) rB], rA)
      else None)"

text \<open>The variables of the cascade, lines 188-248.\<close>

record ('a, 'c) cascade_state =
  r_cells :: "('a, 'c) cell list"
  usedCells :: "nat set"
  newCell :: "('a, 'c) polygon"
  rC :: "('a, 'c) polygon"

text \<open>Lines 198-244: the body of the loop over \<open>k\<close>, for the popped point \<open>q\<close>.\<close>

definition cascade_cell ::
  "('a::ring_1, 'c) kernel \<Rightarrow> 'a vector \<Rightarrow> 'a vector \<Rightarrow> nat \<Rightarrow>
   ('a, 'c) cascade_state \<Rightarrow> ('a, 'c) cascade_state" where
  "cascade_cell K v q k st =
     (if k \<in> usedCells st then st
      else
        let u = site (r_cells st ! k);
            nearestPoly = area (r_cells st ! k)
        in if contains K nearestPoly q
           then
             let st1 = st\<lparr>usedCells := insert k (usedCells st)\<rparr>
             in (case clip K nearestPoly (perpendicularBisector K v u) of
                   (Some rD, Some rE, rd2) \<Rightarrow>
                     let rF = maybe_polygon K rd2;
                         st2 =
                           (if contains K rD (site (r_cells st1 ! k))
                              then st1\<lparr>r_cells := (r_cells st1)[k := assign_area (r_cells st1 ! k) rD],
                                      newCell := poly_union K (newCell st1) rE\<rparr>
                            else if contains K rE (site (r_cells st1 ! k))
                              then st1\<lparr>r_cells := (r_cells st1)[k := assign_area (r_cells st1 ! k) rE],
                                      newCell := poly_union K (newCell st1) rD\<rparr>
                            else st1)
                     in st2\<lparr>rC := fold (\<lambda>x P. poly_plus_point P x) (data rF) (rC st2)\<rparr>
                 | _ \<Rightarrow> st1)
           else st)"

text \<open>Lines 196-245: the loop over all cells.\<close>

definition cascade_scan ::
  "('a::ring_1, 'c) kernel \<Rightarrow> 'a vector \<Rightarrow> 'a vector \<Rightarrow>
   ('a, 'c) cascade_state \<Rightarrow> ('a, 'c) cascade_state" where
  "cascade_scan K v q st = fold (cascade_cell K v q) [0..<length (r_cells st)] st"

text \<open>
  Lines 194-247: one turn of the \<^verbatim>\<open>while\<close> loop. It runs only when the worklist has a
  first point \<open>q\<close>; the scan is followed by \<^verbatim>\<open>rC = rC - q\<close>.
\<close>

definition cascade_iteration ::
  "('a::ring_1, 'c) kernel \<Rightarrow> 'a vector \<Rightarrow> ('a, 'c) cascade_state \<Rightarrow> ('a, 'c) cascade_state" where
  "cascade_iteration K v st =
     (case data (rC st) of
        [] \<Rightarrow> st
      | q # _ \<Rightarrow>
          let st' = cascade_scan K v q st
          in st'\<lparr>rC := poly_minus_point (rC st') q\<rparr>)"

text \<open>
  Lines 192-248: the \<^verbatim>\<open>while\<close> loop. Nothing in its text bounds the number of turns, so
  the model is a partial function: \<open>None\<close> stands for a loop that does not end.
\<close>

partial_function (option) cascade ::
  "('a::ring_1, 'c) kernel \<Rightarrow> 'a vector \<Rightarrow> ('a, 'c) cascade_state \<Rightarrow>
   ('a, 'c) cascade_state option" where
  "cascade K v st =
     (if data (rC st) = [] then Some st else cascade K v (cascade_iteration K v st))"

declare cascade.simps [code]

text \<open>Lines 255-267: the square around the first site.\<close>

definition bounding_ngon :: "nat \<Rightarrow> ('a::ring_1) vector \<Rightarrow> 'a vector list" where
  "bounding_ngon boundingBoxSize v =
     [(fst v - of_nat boundingBoxSize, snd v - of_nat boundingBoxSize),
      (fst v + of_nat boundingBoxSize, snd v - of_nat boundingBoxSize),
      (fst v + of_nat boundingBoxSize, snd v + of_nat boundingBoxSize),
      (fst v - of_nat boundingBoxSize, snd v + of_nat boundingBoxSize)]"

text \<open>
  The whole operator. \<open>boundingBoxSize\<close> is the template parameter of the class
  (line 40, 1000 unless given). The result is \<open>None\<close> only if the cascade does not end.
\<close>

definition voronoi_plus ::
  "('a::ring_1, 'c) kernel \<Rightarrow> nat \<Rightarrow> ('a, 'c) voronoi \<Rightarrow> ('a, 'c) cell \<Rightarrow>
   ('a, 'c) voronoi option" where
  "voronoi_plus K boundingBoxSize this c =
     (let v = site c;
          colour = cell.colour c;
          r = this
      in if length (cells r) > 0
         then
           (case locate K (cells r) v of
              None \<Rightarrow> Some this
            | Some nearestCell \<Rightarrow>
                let nearest = site (cells r ! nearestCell);
                    nearestPoly = area (cells r ! nearestCell)
                in (case clip K nearestPoly (perpendicularBisector K v nearest) of
                      (Some rA, Some rB, rd2) \<Rightarrow>
                        (case split_cell K (cells r) nearestCell nearest rA rB of
                           None \<Rightarrow>
                             Some (r\<lparr>cells := set_plus cell_eq (cells r) (cell_of_area v rB colour)\<rparr>)
                         | Some (cs, newCell0) \<Rightarrow>
                             do {
                               st \<leftarrow> cascade K v
                                      \<lparr>r_cells = cs, usedCells = {nearestCell},
                                       newCell = newCell0, rC = maybe_polygon K rd2\<rparr>;
                               Some (r\<lparr>cells := set_plus cell_eq (r_cells st)
                                                   (cell_of_area v (newCell st) colour)\<rparr>)
                             })
                    | _ \<Rightarrow> Some r))
         else
           Some (r\<lparr>cells := set_plus cell_eq (cells r)
                   (cell_of_area v
                      \<lparr>data = bounding_ngon boundingBoxSize v, colour = default_colour K\<rparr>
                      colour)\<rparr>))"

text \<open>\<^verbatim>\<open>voronoi::operator + (const vector &)\<close>, lines 103-106.\<close>

definition voronoi_plus_site ::
  "('a::ring_1, 'c) kernel \<Rightarrow> nat \<Rightarrow> ('a, 'c) voronoi \<Rightarrow> 'a vector \<Rightarrow> ('a, 'c) voronoi option" where
  "voronoi_plus_site K boundingBoxSize this v =
     voronoi_plus K boundingBoxSize this (cell_of_site K v (default_colour K))"

text \<open>A sequence of insertions, one \<^verbatim>\<open>operator +\<close> after the other.\<close>

fun insert_all ::
  "('a::ring_1, 'c) kernel \<Rightarrow> nat \<Rightarrow> ('a, 'c) voronoi \<Rightarrow> ('a, 'c) cell list \<Rightarrow>
   ('a, 'c) voronoi option" where
  "insert_all K boundingBoxSize d [] = Some d"
| "insert_all K boundingBoxSize d (c # cs) =
     (case voronoi_plus K boundingBoxSize d c of
        None \<Rightarrow> None
      | Some d' \<Rightarrow> insert_all K boundingBoxSize d' cs)"

section \<open>Notions used to state the properties\<close>

text \<open>The variant of the cascade: the cells that are not yet used.\<close>

definition unused :: "('a, 'c) cascade_state \<Rightarrow> nat" where
  "unused st = card ({0..<length (r_cells st)} - usedCells st)"

text \<open>
  \<open>creates K this c\<close> tells whether \<^verbatim>\<open>this + c\<close> reaches one of the three places where a
  cell is added (lines 183, 250 and 269) with a site that no cell has yet: the diagram is
  empty, or a cell contains the site and the clip of that cell gives both sides.
\<close>

definition creates :: "('a::ring_1, 'c) kernel \<Rightarrow> ('a, 'c) voronoi \<Rightarrow> ('a, 'c) cell \<Rightarrow> bool" where
  "creates K this c =
     (if length (cells this) > 0
      then (case locate K (cells this) (site c) of
              None \<Rightarrow> False
            | Some i \<Rightarrow>
                (case clip K (area (cells this ! i))
                        (perpendicularBisector K (site c) (site (cells this ! i))) of
                   (Some rA, Some rB, rd2) \<Rightarrow> \<not> list_ex (\<lambda>x. site x = site c) (cells this)
                 | _ \<Rightarrow> False))
      else True)"

text \<open>The sites of the insertions of a sequence that create a cell, in order.\<close>

fun created_sites ::
  "('a::ring_1, 'c) kernel \<Rightarrow> nat \<Rightarrow> ('a, 'c) voronoi \<Rightarrow> ('a, 'c) cell list \<Rightarrow> 'a vector list" where
  "created_sites K boundingBoxSize d [] = []"
| "created_sites K boundingBoxSize d (c # cs) =
     (if creates K d c then [site c] else []) @
     (case voronoi_plus K boundingBoxSize d c of
        None \<Rightarrow> []
      | Some d' \<Rightarrow> created_sites K boundingBoxSize d' cs)"

text \<open>
  The reading of a successful insertion in the spec: the site lies in the bounding
  square, which is the square of the given half-width around the first site, and no
  earlier insertion had the same site. \<open>prev\<close> holds the sites inserted so far.
\<close>

definition in_bounding_square ::
  "nat \<Rightarrow> ('a::linordered_idom) vector \<Rightarrow> 'a vector \<Rightarrow> bool" where
  "in_bounding_square boundingBoxSize first v =
     (\<bar>fst v - fst first\<bar> \<le> of_nat boundingBoxSize \<and> \<bar>snd v - snd first\<bar> \<le> of_nat boundingBoxSize)"

fun count_successful_spec ::
  "nat \<Rightarrow> ('a::linordered_idom) vector \<Rightarrow> 'a vector list \<Rightarrow> 'a vector list \<Rightarrow> nat" where
  "count_successful_spec boundingBoxSize first prev [] = 0"
| "count_successful_spec boundingBoxSize first prev (v # vs) =
     (if in_bounding_square boundingBoxSize first v \<and> \<not> List.member prev v then 1 else 0) +
     count_successful_spec boundingBoxSize first (prev @ [v]) vs"

text \<open>
  The reading of lines 181-185 in the spec: when neither side of the clip contains the
  old site, the insertion procedure is entered again with the cell made of the new site
  and the second side. Everywhere else it is the operator of the source.
\<close>

partial_function (option) voronoi_plus_reentrant ::
  "('a::ring_1, 'c) kernel \<Rightarrow> nat \<Rightarrow> ('a, 'c) voronoi \<Rightarrow> ('a, 'c) cell \<Rightarrow>
   ('a, 'c) voronoi option" where
  "voronoi_plus_reentrant K boundingBoxSize this c =
     (case locate K (cells this) (site c) of
        None \<Rightarrow> voronoi_plus K boundingBoxSize this c
      | Some i \<Rightarrow>
          (case clip K (area (cells this ! i))
                  (perpendicularBisector K (site c) (site (cells this ! i))) of
             (Some rA, Some rB, rd2) \<Rightarrow>
               if \<not> contains K rA (site (cells this ! i)) \<and> \<not> contains K rB (site (cells this ! i))
               then voronoi_plus_reentrant K boundingBoxSize this
                      (cell_of_area (site c) rB (cell.colour c))
               else voronoi_plus K boundingBoxSize this c
           | _ \<Rightarrow> voronoi_plus K boundingBoxSize this c))"

text \<open>
  \<open>unsplit K v c\<close>: the clip of cell \<open>c\<close> against its bisector with \<open>v\<close> gives fewer than
  two sides, or neither side contains the site of \<open>c\<close>.
\<close>

definition unsplit :: "('a::ring_1, 'c) kernel \<Rightarrow> 'a vector \<Rightarrow> ('a, 'c) cell \<Rightarrow> bool" where
  "unsplit K v c =
     (case clip K (area c) (perpendicularBisector K v (site c)) of
        (Some rD, Some rE, rd2) \<Rightarrow> \<not> contains K rD (site c) \<and> \<not> contains K rE (site c)
      | _ \<Rightarrow> True)"

text \<open>The sites and the vertex lists of the cells of a diagram, without any colour.\<close>

definition geometry :: "('a, 'c) voronoi \<Rightarrow> ('a vector \<times> 'a vector list) list" where
  "geometry d = map (\<lambda>x. (site x, data (area x))) (cells d)"

text \<open>
  What the clip of a cell \<open>c\<close> against its bisector with the new site \<open>v\<close> does to the
  cell, to the area of the new cell and to the worklist, read off lines 219-243:
  \<open>clipped_cell\<close> is the cell afterwards (its area is the side that contains its site,
  the first side when both do), \<open>ceded\<close> is the area of the new cell afterwards (the
  other side is added to it), and \<open>pushed\<close> are the vertices of the remainder that go to
  the worklist (whenever the clip gives both sides).
\<close>

definition clipped_cell :: "('a::ring_1, 'c) kernel \<Rightarrow> 'a vector \<Rightarrow> ('a, 'c) cell \<Rightarrow> ('a, 'c) cell" where
  "clipped_cell K v c =
     (case clip K (area c) (perpendicularBisector K v (site c)) of
        (Some rD, Some rE, rd2) \<Rightarrow>
          if contains K rD (site c) then c\<lparr>area := rD\<lparr>polygon.colour := cell.colour c\<rparr>\<rparr>
          else if contains K rE (site c) then c\<lparr>area := rE\<lparr>polygon.colour := cell.colour c\<rparr>\<rparr>
          else c
      | _ \<Rightarrow> c)"

definition ceded ::
  "('a::ring_1, 'c) kernel \<Rightarrow> 'a vector \<Rightarrow> ('a, 'c) cell \<Rightarrow> ('a, 'c) polygon \<Rightarrow> ('a, 'c) polygon" where
  "ceded K v c P =
     (case clip K (area c) (perpendicularBisector K v (site c)) of
        (Some rD, Some rE, rd2) \<Rightarrow>
          if contains K rD (site c) then poly_union K P rE
          else if contains K rE (site c) then poly_union K P rD
          else P
      | _ \<Rightarrow> P)"

definition pushed :: "('a::ring_1, 'c) kernel \<Rightarrow> 'a vector \<Rightarrow> ('a, 'c) cell \<Rightarrow> 'a vector list" where
  "pushed K v c =
     (case clip K (area c) (perpendicularBisector K v (site c)) of
        (Some rD, Some rE, rd2) \<Rightarrow> (case rd2 of None \<Rightarrow> [] | Some rF \<Rightarrow> data rF)
      | _ \<Rightarrow> [])"

text \<open>
  A kernel is colour-blind when the answers of its polygon operations depend on the
  vertices of the polygons only: containment, the vertices of the sides and of the
  remainder of a clip, and the vertices of a union.
\<close>

definition sides ::
  "('a, 'c) polygon option \<times> ('a, 'c) polygon option \<times> ('a, 'c) polygon option \<Rightarrow>
   'a vector list option \<times> 'a vector list option \<times> 'a vector list option" where
  "sides rd = (map_option data (fst rd), map_option data (fst (snd rd)),
               map_option data (snd (snd rd)))"

definition colour_blind :: "('a, 'c) kernel \<Rightarrow> bool" where
  "colour_blind K =
     ((\<forall>P P' q. data P = data P' \<longrightarrow> contains K P q = contains K P' q)
      \<and> (\<forall>P P' l. data P = data P' \<longrightarrow> sides (clip K P l) = sides (clip K P' l))
      \<and> (\<forall>P P' Q Q'. data P = data P' \<longrightarrow> data Q = data Q' \<longrightarrow>
            data (poly_union K P Q) = data (poly_union K P' Q')))"

text \<open>Two states of the cascade that differ in colours only.\<close>

definition same_shape :: "('a, 'c) cascade_state \<Rightarrow> ('a, 'c) cascade_state \<Rightarrow> bool" where
  "same_shape s s' =
     (map (\<lambda>x. (site x, data (area x))) (r_cells s) =
        map (\<lambda>x. (site x, data (area x))) (r_cells s')
      \<and> usedCells s = usedCells s'
      \<and> data (newCell s) = data (newCell s')
      \<and> data (rC s) = data (rC s'))"

section \<open>An executable kernel for axis-aligned rectangles\<close>

text \<open>
  Modelled from the spec: an instance of the collaborators (point in polygon, clip,
  union, bisector), none of which is among the sources, to run the operator on concrete
  diagrams. It covers rectangles with sides parallel to the axes, over the rationals:
  containment includes the boundary; a vertical or horizontal line through the inside of
  a rectangle cuts it into two rectangles and leaves its two crossing points as the
  remainder; a line that misses the inside leaves the rectangle on one side and nothing
  on the other; any other line gives no side at all. The union of two rectangles is the
  rectangle around both. The bisector passes through the midpoint of the two sites, at
  a right angle to the line between them. With sites whose bisectors are vertical or
  horizontal this is exact plane geometry.
\<close>

definition lo :: "rat list \<Rightarrow> rat" where
  "lo xs = fold min (tl xs) (hd xs)"

definition hi :: "rat list \<Rightarrow> rat" where
  "hi xs = fold max (tl xs) (hd xs)"

definition box :: "rat \<Rightarrow> rat \<Rightarrow> rat \<Rightarrow> rat \<Rightarrow> 'c \<Rightarrow> (rat, 'c) polygon" where
  "box x0 x1 y0 y1 col = \<lparr>data = [(x0, y0), (x1, y0), (x1, y1), (x0, y1)], colour = col\<rparr>"

definition box_contains :: "(rat, 'c) polygon \<Rightarrow> rat vector \<Rightarrow> bool" where
  "box_contains P q =
     (data P \<noteq> [] \<and> lo (map fst (data P)) \<le> fst q \<and> fst q \<le> hi (map fst (data P))
      \<and> lo (map snd (data P)) \<le> snd q \<and> snd q \<le> hi (map snd (data P)))"

definition box_clip ::
  "(rat, 'c) polygon \<Rightarrow> rat vector \<times> rat vector \<Rightarrow>
   (rat, 'c) polygon option \<times> (rat, 'c) polygon option \<times> (rat, 'c) polygon option" where
  "box_clip P l =
     (let a = fst l; b = snd l;
          x0 = lo (map fst (data P)); x1 = hi (map fst (data P));
          y0 = lo (map snd (data P)); y1 = hi (map snd (data P));
          col = polygon.colour P
      in if data P = [] then (None, None, None)
         else if fst a = fst b \<and> snd a \<noteq> snd b then
           (if x0 < fst a \<and> fst a < x1
              then (Some (box x0 (fst a) y0 y1 col), Some (box (fst a) x1 y0 y1 col),
                    Some \<lparr>data = [(fst a, y0), (fst a, y1)], colour = col\<rparr>)
            else if fst a \<le> x0 then (None, Some P, None) else (Some P, None, None))
         else if snd a = snd b \<and> fst a \<noteq> fst b then
           (if y0 < snd a \<and> snd a < y1
              then (Some (box x0 x1 y0 (snd a) col), Some (box x0 x1 (snd a) y1 col),
                    Some \<lparr>data = [(x0, snd a), (x1, snd a)], colour = col\<rparr>)
            else if snd a \<le> y0 then (None, Some P, None) else (Some P, None, None))
         else (None, None, None))"

definition box_union :: "(rat, 'c) polygon \<Rightarrow> (rat, 'c) polygon \<Rightarrow> (rat, 'c) polygon" where
  "box_union P Q =
     (let ps = data P @ data Q
      in if ps = [] then P
         else box (lo (map fst ps)) (hi (map fst ps)) (lo (map snd ps)) (hi (map snd ps))
                (polygon.colour P))"

definition box_kernel :: "(rat, nat) kernel" where
  "box_kernel =
     \<lparr>contains = box_contains, clip = box_clip, poly_union = box_union,
      midpoint = (\<lambda>a b. ((fst a + fst b) / 2, (snd a + snd b) / 2)),
      getPerpendicular = (\<lambda>d. (- snd d, fst d)),
      default_colour = 0\<rparr>"

text \<open>The cell of a bare site under this kernel, and a rectangle as the area of a cell.\<close>

definition bare :: "rat vector \<Rightarrow> (rat, nat) cell" where
  "bare v = cell_of_site box_kernel v 0"

definition box_cell :: "rat vector \<Rightarrow> rat \<Rightarrow> rat \<Rightarrow> rat \<Rightarrow> rat \<Rightarrow> (rat, nat) cell" where
  "box_cell v x0 x1 y0 y1 = \<lparr>site = v, area = box x0 x1 y0 y1 0, colour = 0\<rparr>"

section \<open>Lemmas about the parts of the operator\<close>

text \<open>Point location finds the first cell that contains the site.\<close>

lemma locate_None_iff:
  "locate K cs v = None \<longleftrightarrow> \<not> list_ex (\<lambda>c. contains K (area c) v) cs"
  by (induction cs) auto

lemma locate_Some_bound: "locate K cs v = Some i \<Longrightarrow> i < length cs"
  by (induction cs arbitrary: i) (auto split: if_splits)

lemma locate_Some_contains: "locate K cs v = Some i \<Longrightarrow> contains K (area (cs ! i)) v"
  by (induction cs arbitrary: i) (auto split: if_splits)

lemma locate_Some_first:
  "locate K cs v = Some i \<Longrightarrow> j < i \<Longrightarrow> \<not> contains K (area (cs ! j)) v"
proof (induction cs arbitrary: i j)
  case Nil
  then show ?case by simp
next
  case (Cons c cs)
  then show ?case by (cases j) (auto split: if_splits)
qed

lemma site_assign_area [simp]: "site (assign_area c P) = site c"
  by (simp add: assign_area_def)

lemma colour_assign_area [simp]: "cell.colour (assign_area c P) = cell.colour c"
  by (simp add: assign_area_def)

lemma map_update_same: "(map f cs)[k := f (cs ! k)] = map f cs"
proof -
  have "(map f cs)[k := f (cs ! k)] = map f (cs[k := cs ! k])"
    by (simp only: map_update)
  then show ?thesis by simp
qed

lemma map_site_update:
  "map site (cs[k := assign_area (cs ! k) P]) = map site cs"
  by (simp add: map_update map_update_same)

lemma map_colour_update:
  "map cell.colour (cs[k := assign_area (cs ! k) P]) = map cell.colour cs"
  by (simp add: map_update map_update_same)

lemma fold_plus_point_data:
  "data (fold (\<lambda>x P. poly_plus_point P x) xs P) = data P @ xs"
  by (induction xs arbitrary: P) (simp_all add: poly_plus_point_def)

text \<open>What one step of the scan can do.\<close>

lemma cascade_cell_skip:
  "k \<in> usedCells st \<or> \<not> contains K (area (r_cells st ! k)) q \<Longrightarrow> cascade_cell K v q k st = st"
  by (auto simp: cascade_cell_def Let_def)

lemma cascade_cell_used:
  "k \<notin> usedCells st \<Longrightarrow> contains K (area (r_cells st ! k)) q \<Longrightarrow>
   usedCells (cascade_cell K v q k st) = insert k (usedCells st)"
  by (auto simp: cascade_cell_def Let_def split: prod.splits option.splits)

lemma cascade_cell_sites:
  "map site (r_cells (cascade_cell K v q k st)) = map site (r_cells st)"
  by (auto simp: cascade_cell_def Let_def map_site_update split: prod.splits option.splits)

lemma cascade_cell_colours:
  "map cell.colour (r_cells (cascade_cell K v q k st)) = map cell.colour (r_cells st)"
  by (auto simp: cascade_cell_def Let_def map_colour_update split: prod.splits option.splits)

lemma cascade_cell_other:
  "j \<noteq> k \<Longrightarrow> r_cells (cascade_cell K v q k st) ! j = r_cells st ! j"
  by (auto simp: cascade_cell_def Let_def split: prod.splits option.splits)

lemma cascade_cell_length:
  "length (r_cells (cascade_cell K v q k st)) = length (r_cells st)"
  by (auto simp: cascade_cell_def Let_def split: prod.splits option.splits)


text \<open>The scan over a list of indices.\<close>

lemma scan_sites:
  "map site (r_cells (fold (cascade_cell K v q) ks st)) = map site (r_cells st)"
  by (induction ks arbitrary: st) (simp_all add: cascade_cell_sites)

lemma scan_colours:
  "map cell.colour (r_cells (fold (cascade_cell K v q) ks st)) = map cell.colour (r_cells st)"
  by (induction ks arbitrary: st) (simp_all add: cascade_cell_colours)

lemma scan_length:
  "length (r_cells (fold (cascade_cell K v q) ks st)) = length (r_cells st)"
  by (induction ks arbitrary: st) (simp_all add: cascade_cell_length)

lemma scan_other:
  "j \<notin> set ks \<Longrightarrow> r_cells (fold (cascade_cell K v q) ks st) ! j = r_cells st ! j"
  by (induction ks arbitrary: st) (auto simp: cascade_cell_other)

lemma cascade_cell_used_eq:
  "usedCells (cascade_cell K v q k st) =
     usedCells st \<union> (if contains K (area (r_cells st ! k)) q then {k} else {})"
proof (cases "k \<in> usedCells st \<or> \<not> contains K (area (r_cells st ! k)) q")
  case True
  then show ?thesis by (auto simp: cascade_cell_skip)
next
  case False
  then show ?thesis by (simp add: cascade_cell_used)
qed

lemma scan_used:
  "distinct ks \<Longrightarrow>
   usedCells (fold (cascade_cell K v q) ks st) =
     usedCells st \<union> {k \<in> set ks. contains K (area (r_cells st ! k)) q}"
proof (induction ks arbitrary: st)
  case Nil
  then show ?case by simp
next
  case (Cons k ks)
  let ?st1 = "cascade_cell K v q k st"
  have same: "\<And>j. j \<in> set ks \<Longrightarrow> r_cells ?st1 ! j = r_cells st ! j"
  proof -
    fix j assume "j \<in> set ks"
    with Cons.prems have "j \<noteq> k" by auto
    then show "r_cells ?st1 ! j = r_cells st ! j" by (rule cascade_cell_other)
  qed
  have "usedCells (fold (cascade_cell K v q) (k # ks) st) =
          usedCells ?st1 \<union> {j \<in> set ks. contains K (area (r_cells ?st1 ! j)) q}"
    using Cons.IH [of ?st1] Cons.prems by simp
  also have "{j \<in> set ks. contains K (area (r_cells ?st1 ! j)) q} =
             {j \<in> set ks. contains K (area (r_cells st ! j)) q}"
    using same by auto
  finally show ?case
    by (auto simp: cascade_cell_used_eq split: if_splits)
qed

lemma scan_unchanged:
  "\<forall>k \<in> set ks. k \<in> usedCells st \<or> \<not> contains K (area (r_cells st ! k)) q \<Longrightarrow>
   fold (cascade_cell K v q) ks st = st"
  by (induction ks) (simp_all add: cascade_cell_skip)


lemma iteration_sites:
  "map site (r_cells (cascade_iteration K v st)) = map site (r_cells st)"
  by (simp add: cascade_iteration_def cascade_scan_def scan_sites Let_def split: list.splits)

lemma iteration_colours:
  "map cell.colour (r_cells (cascade_iteration K v st)) = map cell.colour (r_cells st)"
  by (simp add: cascade_iteration_def cascade_scan_def scan_colours Let_def split: list.splits)

lemma iteration_length:
  "length (r_cells (cascade_iteration K v st)) = length (r_cells st)"
  by (simp add: cascade_iteration_def cascade_scan_def scan_length Let_def split: list.splits)

lemma iteration_used:
  "data (rC st) = q # qs \<Longrightarrow>
   usedCells (cascade_iteration K v st) =
     usedCells st \<union> {k. k < length (r_cells st) \<and> contains K (area (r_cells st ! k)) q}"
  by (simp add: cascade_iteration_def cascade_scan_def scan_used Let_def)

lemma iteration_popped:
  "data (rC st) = q # qs \<Longrightarrow> q \<notin> set (data (rC (cascade_iteration K v st)))"
  by (simp add: cascade_iteration_def Let_def poly_minus_point_def)

lemma iteration_decreases:
  assumes "data (rC st) \<noteq> []"
  shows "(cascade_iteration K v st, st) \<in> measures [unused, \<lambda>s. length (data (rC s))]"
proof -
  from assms obtain q qs where q: "data (rC st) = q # qs" by (cases "data (rC st)") auto
  let ?n = "length (r_cells st)"
  let ?new = "{k. k < ?n \<and> contains K (area (r_cells st ! k)) q}"
  let ?st' = "cascade_iteration K v st"
  have used: "usedCells ?st' = usedCells st \<union> ?new" using q by (rule iteration_used)
  have len: "length (r_cells ?st') = ?n" by (rule iteration_length)
  show ?thesis
  proof (cases "?new \<subseteq> usedCells st")
    case True
    then have "\<forall>k \<in> set [0..<?n]. k \<in> usedCells st \<or> \<not> contains K (area (r_cells st ! k)) q"
      by auto
    then have scan: "cascade_scan K v q st = st"
      unfolding cascade_scan_def by (rule scan_unchanged)
    have "usedCells ?st' = usedCells st" using used True by auto
    then have "unused ?st' = unused st" by (simp add: unused_def len)
    moreover have "length (data (rC ?st')) < length (data (rC st))"
      using q scan
      by (simp add: cascade_iteration_def Let_def poly_minus_point_def less_Suc_eq_le)
    ultimately show ?thesis by simp
  next
    case False
    then obtain k where k: "k < ?n" "k \<notin> usedCells st" "k \<in> usedCells ?st'"
      using used by auto
    have "{0..<?n} - usedCells ?st' \<subset> {0..<?n} - usedCells st"
      using k used by auto
    then have "unused ?st' < unused st"
      unfolding unused_def len by (intro psubset_card_mono) auto
    then show ?thesis by simp
  qed
qed

lemma cascade_halts:
  "\<exists>st'. cascade K v st = Some st' \<and> data (rC st') = []
         \<and> map site (r_cells st') = map site (r_cells st)
         \<and> map cell.colour (r_cells st') = map cell.colour (r_cells st)"
proof (induction st rule: wf_induct_rule [OF wf_measures [of "[unused, \<lambda>s. length (data (rC s))]"]])
  case (1 st)
  show ?case
  proof (cases "data (rC st) = []")
    case True
    then show ?thesis by (simp add: cascade.simps)
  next
    case False
    from 1 [OF iteration_decreases [OF False, of K v]]
    obtain st' where "cascade K v (cascade_iteration K v st) = Some st'" "data (rC st') = []"
      "map site (r_cells st') = map site (r_cells (cascade_iteration K v st))"
      "map cell.colour (r_cells st') = map cell.colour (r_cells (cascade_iteration K v st))"
      by blast
    with False show ?thesis
      by (subst cascade.simps) (simp add: iteration_sites iteration_colours)
  qed
qed


text \<open>Adding a cell to the collection.\<close>

lemma set_plus_sites:
  "map site (set_plus cell_eq cs x) =
     map site cs @ (if list_ex (\<lambda>y. site y = site x) cs then [] else [site x])"
  by (simp add: set_plus_def cell_eq_def)

lemma set_plus_colours:
  "map cell.colour (set_plus cell_eq cs x) =
     map cell.colour cs @ (if list_ex (\<lambda>y. site y = site x) cs then [] else [cell.colour x])"
  by (simp add: set_plus_def cell_eq_def)

lemma list_ex_site_cong:
  "map site cs = map site cs' \<Longrightarrow>
   list_ex (\<lambda>y. site y = v) cs = list_ex (\<lambda>y. site y = v) cs'"
proof -
  assume "map site cs = map site cs'"
  then have "set (map site cs) = set (map site cs')" by simp
  then have "(v \<in> site ` set cs) = (v \<in> site ` set cs')" by simp
  then show ?thesis by (auto simp: list_ex_iff image_iff)
qed

lemma split_cell_sites:
  "split_cell K cs i u rA rB = Some (cs', P) \<Longrightarrow> map site cs' = map site cs"
  by (auto simp: split_cell_def map_site_update split: if_splits)

lemma split_cell_colours:
  "split_cell K cs i u rA rB = Some (cs', P) \<Longrightarrow> map cell.colour cs' = map cell.colour cs"
  by (auto simp: split_cell_def map_colour_update split: if_splits)

text \<open>The operator returns, and the sites of the result are those of the diagram, followed
  by the new site when a cell is created.\<close>

lemma voronoi_plus_result:
  "\<exists>d'. voronoi_plus K bbs this c = Some d'
        \<and> map site (cells d') = map site (cells this) @ (if creates K this c then [site c] else [])
        \<and> map cell.colour (cells d') =
            map cell.colour (cells this) @ (if creates K this c then [cell.colour c] else [])"
proof (cases "cells this = []")
  case True
  then show ?thesis
    by (simp add: voronoi_plus_def Let_def creates_def set_plus_def cell_of_area_def)
next
  case ne: False
  show ?thesis
  proof (cases "locate K (cells this) (site c)")
    case None
    with ne show ?thesis by (simp add: voronoi_plus_def Let_def creates_def)
  next
    case (Some i)
    let ?u = "site (cells this ! i)"
    obtain a b rd2 where cl:
      "clip K (area (cells this ! i)) (perpendicularBisector K (site c) ?u) = (a, b, rd2)"
      by (cases "clip K (area (cells this ! i)) (perpendicularBisector K (site c) ?u)") auto
    show ?thesis
    proof (cases "\<exists>rA rB. a = Some rA \<and> b = Some rB")
      case False
      with ne Some cl show ?thesis
        by (cases a; cases b) (simp_all add: voronoi_plus_def Let_def creates_def)
    next
      case True
      then obtain rA rB where ab: "a = Some rA" "b = Some rB" by blast
      have cr: "creates K this c = (\<not> list_ex (\<lambda>x. site x = site c) (cells this))"
        using ne Some cl ab by (simp add: creates_def)
      show ?thesis
      proof (cases "split_cell K (cells this) i ?u rA rB")
        case None
        with ne Some cl ab cr show ?thesis
          by (simp add: voronoi_plus_def Let_def set_plus_sites set_plus_colours cell_of_area_def)
      next
        case (Some r)
        obtain cs P where r: "r = (cs, P)" by (cases r)
        let ?st0 = "\<lparr>r_cells = cs, usedCells = {i}, newCell = P, rC = maybe_polygon K rd2\<rparr>"
        from cascade_halts [of K "site c" ?st0]
        obtain st where st: "cascade K (site c) ?st0 = Some st"
          "map site (r_cells st) = map site cs"
          "map cell.colour (r_cells st) = map cell.colour cs"
          by auto
        have s1: "map site cs = map site (cells this)"
          using Some r by (auto dest: split_cell_sites)
        have s2: "map cell.colour cs = map cell.colour (cells this)"
          using Some r by (auto dest: split_cell_colours)
        have ex: "list_ex (\<lambda>y. site y = site c) (r_cells st) =
                  list_ex (\<lambda>y. site y = site c) (cells this)"
          using st(2) s1 by (intro list_ex_site_cong) simp
        have res: "voronoi_plus K bbs this c =
                Some (this\<lparr>cells := set_plus cell_eq (r_cells st)
                                      (cell_of_area (site c) (newCell st) (cell.colour c))\<rparr>)"
          using ne \<open>locate K (cells this) (site c) = Some i\<close> cl ab Some r st(1)
          by (simp add: voronoi_plus_def Let_def)
        show ?thesis
          unfolding res cr
          by (simp add: set_plus_sites set_plus_colours cell_of_area_def ex st(2,3) s1 s2)
      qed
    qed
  qed
qed

section \<open>Running the model on concrete diagrams\<close>

text \<open>The defining equations that the simplifier unfolds to run the operator.\<close>

lemmas model_defs =
  voronoi_plus_def voronoi_plus_site_def cell_of_site_def cell_of_area_def set_plus_def
  bounding_ngon_def perpendicularBisector_def vadd_def vsub_def cell_eq_def split_cell_def
  assign_area_def maybe_polygon_def cascade_iteration_def cascade_scan_def cascade_cell_def
  poly_minus_point_def poly_plus_point_def Let_def

lemmas box_defs =
  box_kernel_def box_contains_def box_clip_def box_union_def box_def lo_def hi_def
  bare_def box_cell_def

section \<open>The first site\<close>

text \<open>
  C1, as the code has it. Whatever the collaborators are, inserting a cell with site
  \<open>v\<close> into the empty diagram with half-width 1000 gives a diagram with exactly one cell;
  its site is \<open>v\<close> and its polygon is the axis-aligned square around \<open>v\<close>, with corners
  \<open>(v\<^sub>0 \<plusminus> 1000, v\<^sub>1 \<plusminus> 1000)\<close>. No collaborator is consulted: nothing is located, clipped
  or cascaded.
\<close>

theorem first_site_square:
  "voronoi_plus K 1000 \<lparr>cells = []\<rparr> c =
     Some \<lparr>cells =
       [\<lparr>site = site c,
         area = \<lparr>data = [(fst (site c) - 1000, snd (site c) - 1000),
                         (fst (site c) + 1000, snd (site c) - 1000),
                         (fst (site c) + 1000, snd (site c) + 1000),
                         (fst (site c) - 1000, snd (site c) + 1000)],
                 colour = cell.colour c\<rparr>,
         colour = cell.colour c\<rparr>]\<rparr>"
  by (simp add: voronoi_plus_def Let_def set_plus_def cell_of_area_def bounding_ngon_def)

text \<open>The square around the site \<open>(5, 0)\<close>.\<close>

theorem first_site_square_witness:
  "voronoi_plus box_kernel 1000 \<lparr>cells = []\<rparr> (bare (5, 0)) =
     Some \<lparr>cells = [box_cell (5, 0) (- 995) 1005 (- 1000) 1000]\<rparr>"
  using first_site_square [of box_kernel "bare (5, 0)"]
  by (simp add: bare_def cell_of_site_def box_cell_def box_def)

text \<open>
  The square is around the site and not around the origin: for the first site \<open>(5, 0)\<close>
  its corners are not \<open>(\<plusminus>1000, \<plusminus>1000)\<close>.
\<close>

theorem first_site_square_counterexample:
  "voronoi_plus box_kernel 1000 \<lparr>cells = []\<rparr> (bare (5, 0)) =
     Some \<lparr>cells =
       [\<lparr>site = (5, 0),
         area = \<lparr>data = [(- 995, - 1000), (1005, - 1000), (1005, 1000), (- 995, 1000)],
                 colour = 0\<rparr>,
         colour = 0\<rparr>]\<rparr>
   \<and> (1000 :: rat, 1000 :: rat)
       \<notin> set [(- 995, - 1000), (1005, - 1000), (1005, 1000), (- 995, 1000)]"
  by (simp add: model_defs box_defs)

section \<open>A split in which neither side contains the old site\<close>

text \<open>
  C2, as the code has it. When a cell is located, the clip gives both sides and neither
  side contains the site of the located cell, the operator adds the cell made of the new
  site, the second side \<open>rB\<close> and the colour to the collection and returns: the located
  cell keeps its area, there is no cascade, and the operator is not entered again.
\<close>

theorem degenerate_split_adds_cell:
  assumes "locate K (cells this) (site c) = Some i"
      and "clip K (area (cells this ! i))
             (perpendicularBisector K (site c) (site (cells this ! i))) = (Some rA, Some rB, rd2)"
      and "\<not> contains K rA (site (cells this ! i))"
      and "\<not> contains K rB (site (cells this ! i))"
  shows "voronoi_plus K bbs this c =
           Some (this\<lparr>cells := set_plus cell_eq (cells this)
                                 (cell_of_area (site c) rB (cell.colour c))\<rparr>)"
proof -
  from assms(1) have "cells this \<noteq> []" by auto
  with assms show ?thesis
    by (simp add: voronoi_plus_def Let_def split_cell_def)
qed

theorem degenerate_split_adds_cell_witness:
  "locate box_kernel (cells \<lparr>cells = [box_cell (0, 0) 100 300 (- 1000) 1000]\<rparr>)
     (site (bare (300, 0))) = Some 0
   \<and> voronoi_plus box_kernel 1000 \<lparr>cells = [box_cell (0, 0) 100 300 (- 1000) 1000]\<rparr>
       (bare (300, 0)) =
     Some \<lparr>cells = [box_cell (0, 0) 100 300 (- 1000) 1000,
                     box_cell (300, 0) 150 300 (- 1000) 1000]\<rparr>"
proof -
  let ?D = "\<lparr>cells = [box_cell (0, 0) 100 300 (- 1000) 1000]\<rparr> :: (rat, nat) voronoi"
  have h1: "locate box_kernel (cells ?D) (site (bare (300, 0))) = Some 0"
    by (simp add: model_defs box_defs)
  have h2: "clip box_kernel (area (cells ?D ! 0))
             (perpendicularBisector box_kernel (site (bare (300, 0))) (site (cells ?D ! 0))) =
            (Some (box 100 150 (- 1000) 1000 0), Some (box 150 300 (- 1000) 1000 0),
             Some \<lparr>data = [(150, - 1000), (150, 1000)], colour = 0\<rparr>)"
    by (simp add: model_defs box_defs)
  have h3: "\<not> contains box_kernel (box 100 150 (- 1000) 1000 0) (site (cells ?D ! 0))"
    by (simp add: model_defs box_defs)
  have h4: "\<not> contains box_kernel (box 150 300 (- 1000) 1000 0) (site (cells ?D ! 0))"
    by (simp add: model_defs box_defs)
  from degenerate_split_adds_cell [OF h1 h2 h3 h4, of 1000] h1 show ?thesis
    by (simp add: model_defs box_defs)
qed

text \<open>The located cell of the example: its site lies outside its area.\<close>

lemma off_site_split:
  "locate box_kernel [box_cell (0, 0) 100 300 (- 1000) 1000] (300, 0) = Some 0"
  "clip box_kernel (area (box_cell (0, 0) 100 300 (- 1000) 1000))
     (perpendicularBisector box_kernel (300, 0) (0, 0)) =
       (Some (box 100 150 (- 1000) 1000 0), Some (box 150 300 (- 1000) 1000 0),
        Some \<lparr>data = [(150, - 1000), (150, 1000)], colour = 0\<rparr>)"
  "\<not> contains box_kernel (box 100 150 (- 1000) 1000 0) (0, 0)"
  "\<not> contains box_kernel (box 150 300 (- 1000) 1000 0) (0, 0)"
  by (simp_all add: model_defs box_defs)

lemma reentrant_never_returns:
  assumes "voronoi_plus_reentrant K bbs this c = Some y"
  shows "\<not> (K = box_kernel \<and> this = \<lparr>cells = [box_cell (0, 0) 100 300 (- 1000) 1000]\<rparr>
            \<and> site c = (300, 0))"
proof (rule voronoi_plus_reentrant.raw_induct
    [where P = "\<lambda>K bbs this c y.
       \<not> (K = box_kernel \<and> this = \<lparr>cells = [box_cell (0, 0) 100 300 (- 1000) 1000]\<rparr>
          \<and> site c = (300, 0))", OF _ assms])
  fix rec :: "(rat, nat) kernel \<Rightarrow> nat \<Rightarrow> (rat, nat) voronoi \<Rightarrow> (rat, nat) cell \<Rightarrow>
              (rat, nat) voronoi option"
  fix K bbs this c y
  let ?D = "\<lparr>cells = [box_cell (0, 0) 100 300 (- 1000) 1000]\<rparr> :: (rat, nat) voronoi"
  assume IH: "\<And>K bbs this c y. rec K bbs this c = Some y \<Longrightarrow>
                \<not> (K = box_kernel \<and> this = ?D \<and> site c = (300, 0))"
  assume body:
    "(case locate K (cells this) (site c) of
        None \<Rightarrow> voronoi_plus K bbs this c
      | Some i \<Rightarrow>
          (case clip K (area (cells this ! i))
                  (perpendicularBisector K (site c) (site (cells this ! i))) of
             (Some rA, Some rB, rd2) \<Rightarrow>
               if \<not> contains K rA (site (cells this ! i)) \<and> \<not> contains K rB (site (cells this ! i))
               then rec K bbs this (cell_of_area (site c) rB (cell.colour c))
               else voronoi_plus K bbs this c
           | _ \<Rightarrow> voronoi_plus K bbs this c)) = Some y"
  show "\<not> (K = box_kernel \<and> this = ?D \<and> site c = (300, 0))"
  proof
    assume a: "K = box_kernel \<and> this = ?D \<and> site c = (300, 0)"
    then have K: "K = box_kernel" and D: "this = ?D" and v: "site c = (300, 0)"
      by simp_all
    have s0: "site (box_cell (0, 0) 100 300 (- 1000) 1000) = (0, 0)"
      by (simp add: box_cell_def)
    from body have "rec box_kernel bbs ?D
        (cell_of_area (300, 0) (box 150 300 (- 1000) 1000 0) (cell.colour c)) = Some y"
      unfolding K D v by (simp add: off_site_split s0 del: locate.simps)
    from IH [OF this] show False by (simp add: cell_of_area_def)
  qed
qed

text \<open>
  On this input the reading of the spec, which enters the procedure again, never returns,
  while the operator returns the diagram with the new cell.
\<close>

theorem degenerate_split_counterexample:
  "voronoi_plus_reentrant box_kernel 1000
     \<lparr>cells = [box_cell (0, 0) 100 300 (- 1000) 1000]\<rparr> (bare (300, 0)) = None
   \<and> voronoi_plus box_kernel 1000
       \<lparr>cells = [box_cell (0, 0) 100 300 (- 1000) 1000]\<rparr> (bare (300, 0)) =
     Some \<lparr>cells = [box_cell (0, 0) 100 300 (- 1000) 1000,
                     box_cell (300, 0) 150 300 (- 1000) 1000]\<rparr>"
proof -
  have "voronoi_plus_reentrant box_kernel 1000
     \<lparr>cells = [box_cell (0, 0) 100 300 (- 1000) 1000]\<rparr> (bare (300, 0)) = None"
  proof (cases "voronoi_plus_reentrant box_kernel 1000
     \<lparr>cells = [box_cell (0, 0) 100 300 (- 1000) 1000]\<rparr> (bare (300, 0))")
    case None
    then show ?thesis .
  next
    case (Some y)
    from reentrant_never_returns [OF this] show ?thesis
      by (simp add: bare_def cell_of_site_def)
  qed
  moreover have "voronoi_plus box_kernel 1000
       \<lparr>cells = [box_cell (0, 0) 100 300 (- 1000) 1000]\<rparr> (bare (300, 0)) =
     Some \<lparr>cells = [box_cell (0, 0) 100 300 (- 1000) 1000,
                     box_cell (300, 0) 150 300 (- 1000) 1000]\<rparr>"
    by (simp add: model_defs box_defs)
  ultimately show ?thesis by blast
qed

section \<open>The number of cells\<close>

lemma insert_all_result:
  "\<exists>d'. insert_all K bbs d cs = Some d'
        \<and> map site (cells d') = map site (cells d) @ created_sites K bbs d cs"
proof (induction cs arbitrary: d)
  case Nil
  then show ?case by simp
next
  case (Cons c cs)
  from voronoi_plus_result [of K bbs d c]
  obtain d1 where d1: "voronoi_plus K bbs d c = Some d1"
    "map site (cells d1) = map site (cells d) @ (if creates K d c then [site c] else [])"
    by blast
  from Cons.IH [of d1] obtain d' where "insert_all K bbs d1 cs = Some d'"
    "map site (cells d') = map site (cells d1) @ created_sites K bbs d1 cs"
    by blast
  with d1 show ?case by simp
qed

text \<open>
  C3, as the code has it. Every sequence of insertions into the empty diagram returns,
  and the sites of the cells of the result are the sites of the insertions that create
  a cell, in order, so that the number of cells is the number of those insertions. An
  insertion creates a cell when the diagram is empty, or when some cell contains the
  site, the clip of the first such cell gives both sides and no cell has the site yet.
  Every insertion keeps the sites of the existing cells in place and adds at most the
  new site at the end.
\<close>

theorem cells_follow_creations:
  "(\<exists>d'. insert_all K bbs \<lparr>cells = []\<rparr> cs = Some d'
         \<and> map site (cells d') = created_sites K bbs \<lparr>cells = []\<rparr> cs
         \<and> length (cells d') = length (created_sites K bbs \<lparr>cells = []\<rparr> cs))
   \<and> (\<exists>d'. voronoi_plus K bbs this c = Some d'
         \<and> map site (cells d') = map site (cells this) @ (if creates K this c then [site c] else []))"
proof -
  from insert_all_result [of K bbs "\<lparr>cells = []\<rparr>" cs]
  obtain d' where d': "insert_all K bbs \<lparr>cells = []\<rparr> cs = Some d'"
    "map site (cells d') = created_sites K bbs \<lparr>cells = []\<rparr> cs"
    by auto
  from d'(2) have "length (map site (cells d')) = length (created_sites K bbs \<lparr>cells = []\<rparr> cs)"
    by simp
  then have "length (cells d') = length (created_sites K bbs \<lparr>cells = []\<rparr> cs)"
    by simp
  with d' voronoi_plus_result [of K bbs this c] show ?thesis by blast
qed

theorem cells_follow_creations_witness:
  "insert_all box_kernel 1000 \<lparr>cells = []\<rparr> (map bare [(- 10, 0), (10, 0)]) =
     Some \<lparr>cells = [box_cell (- 10, 0) (- 1010) 0 (- 1000) 1000,
                     box_cell (10, 0) 0 990 (- 1000) 1000]\<rparr>
   \<and> created_sites box_kernel 1000 \<lparr>cells = []\<rparr> (map bare [(- 10, 0), (10, 0)]) =
       [(- 10, 0), (10, 0)]"
proof -
  have run: "insert_all box_kernel 1000 \<lparr>cells = []\<rparr> (map bare [(- 10, 0), (10, 0)]) =
     Some \<lparr>cells = [box_cell (- 10, 0) (- 1010) 0 (- 1000) 1000,
                     box_cell (10, 0) 0 990 (- 1000) 1000]\<rparr>"
    by (simp add: model_defs box_defs cascade.simps)
  from cells_follow_creations [of box_kernel 1000 "map bare [(- 10, 0), (10, 0)]"]
  obtain d' where d': "insert_all box_kernel 1000 \<lparr>cells = []\<rparr> (map bare [(- 10, 0), (10, 0)]) = Some d'"
    "map site (cells d') = created_sites box_kernel 1000 \<lparr>cells = []\<rparr> (map bare [(- 10, 0), (10, 0)])"
    by blast
  from d'(1) run have eq: "d' = \<lparr>cells = [box_cell (- 10, 0) (- 1010) 0 (- 1000) 1000,
                     box_cell (10, 0) 0 990 (- 1000) 1000]\<rparr>"
    by simp
  have "created_sites box_kernel 1000 \<lparr>cells = []\<rparr> (map bare [(- 10, 0), (10, 0)]) =
        map site (cells d')"
    by (rule d'(2) [symmetric])
  also have "\<dots> = [(- 10, 0), (10, 0)]"
    unfolding eq by (simp add: box_cell_def)
  finally have "created_sites box_kernel 1000 \<lparr>cells = []\<rparr> (map bare [(- 10, 0), (10, 0)]) =
       [(- 10, 0), (10, 0)]" .
  with run show ?thesis by (rule conjI)
qed

text \<open>
  Five insertions, of which four have a site in the bounding square that was not
  inserted before, leave three cells: the second insertion of \<open>(-250, 0)\<close> shrinks the
  cell of \<open>(-500, 0)\<close>, and \<open>(-300, 0)\<close> then lies in no cell.
\<close>

theorem cell_count_counterexample:
  "map_option (\<lambda>d. length (cells d))
     (insert_all box_kernel 1000 \<lparr>cells = []\<rparr>
        (map bare [(0, 0), (- 500, 0), (- 250, 0), (- 250, 0), (- 300, 0)])) = Some 3
   \<and> count_successful_spec 1000 (0, 0) []
        [(0, 0), (- 500, 0), (- 250, 0), (- 250, 0), (- 300 :: rat, 0 :: rat)] = 4"
  by (simp add: model_defs box_defs cascade.simps in_bounding_square_def)

section \<open>The split of the located cell\<close>

text \<open>
  C4. When a cell is located, the clip against the bisector gives both sides and one of
  them contains the site \<open>u\<close> of the located cell, the side that contains \<open>u\<close> (the first
  side when both do) becomes the area of that cell, with the colour of the cell, and the
  other side is the area the new cell starts the cascade with.
\<close>

theorem split_assigns_sides:
  assumes "locate K (cells this) (site c) = Some i"
      and "clip K (area (cells this ! i))
             (perpendicularBisector K (site c) (site (cells this ! i))) = (Some rA, Some rB, rd2)"
      and "contains K rA (site (cells this ! i)) \<or> contains K rB (site (cells this ! i))"
      and "keep = (if contains K rA (site (cells this ! i)) then rA else rB)"
      and "other = (if contains K rA (site (cells this ! i)) then rB else rA)"
  shows "contains K keep (site (cells this ! i))
       \<and> split_cell K (cells this) i (site (cells this ! i)) rA rB =
           Some ((cells this)[i := (cells this ! i)
                    \<lparr>area := keep\<lparr>polygon.colour := cell.colour (cells this ! i)\<rparr>\<rparr>], other)
       \<and> voronoi_plus K bbs this c =
           (case cascade K (site c)
                   \<lparr>r_cells = (cells this)[i := (cells this ! i)
                       \<lparr>area := keep\<lparr>polygon.colour := cell.colour (cells this ! i)\<rparr>\<rparr>],
                    usedCells = {i}, newCell = other, rC = maybe_polygon K rd2\<rparr> of
              None \<Rightarrow> None
            | Some st \<Rightarrow>
                Some (this\<lparr>cells := set_plus cell_eq (r_cells st)
                                      (cell_of_area (site c) (newCell st) (cell.colour c))\<rparr>))"
proof -
  from assms(1) have ne: "cells this \<noteq> []" by auto
  have sp: "split_cell K (cells this) i (site (cells this ! i)) rA rB =
           Some ((cells this)[i := (cells this ! i)
                    \<lparr>area := keep\<lparr>polygon.colour := cell.colour (cells this ! i)\<rparr>\<rparr>], other)"
    using assms(3,4,5) by (auto simp: split_cell_def assign_area_def)
  have "contains K keep (site (cells this ! i))"
    using assms(3,4) by auto
  moreover note sp
  moreover have "voronoi_plus K bbs this c =
           (case cascade K (site c)
                   \<lparr>r_cells = (cells this)[i := (cells this ! i)
                       \<lparr>area := keep\<lparr>polygon.colour := cell.colour (cells this ! i)\<rparr>\<rparr>],
                    usedCells = {i}, newCell = other, rC = maybe_polygon K rd2\<rparr> of
              None \<Rightarrow> None
            | Some st \<Rightarrow>
                Some (this\<lparr>cells := set_plus cell_eq (r_cells st)
                                      (cell_of_area (site c) (newCell st) (cell.colour c))\<rparr>))"
    using ne assms(1,2) sp
    by (simp add: voronoi_plus_def Let_def split: option.splits)
  ultimately show ?thesis by blast
qed

theorem split_assigns_sides_witness:
  "locate box_kernel (cells \<lparr>cells = [box_cell (0, 0) (- 1000) 1000 (- 1000) 1000]\<rparr>)
     (site (bare (500, 0))) = Some 0
   \<and> contains box_kernel (box (- 1000) 250 (- 1000) 1000 0) (0, 0)
   \<and> voronoi_plus box_kernel 1000 \<lparr>cells = [box_cell (0, 0) (- 1000) 1000 (- 1000) 1000]\<rparr>
       (bare (500, 0)) =
     Some \<lparr>cells = [box_cell (0, 0) (- 1000) 250 (- 1000) 1000,
                     box_cell (500, 0) 250 1000 (- 1000) 1000]\<rparr>"
proof -
  let ?D = "\<lparr>cells = [box_cell (0, 0) (- 1000) 1000 (- 1000) 1000]\<rparr> :: (rat, nat) voronoi"
  let ?rA = "box (- 1000) 250 (- 1000) 1000 0 :: (rat, nat) polygon"
  let ?rB = "box 250 1000 (- 1000) 1000 0 :: (rat, nat) polygon"
  have h1: "locate box_kernel (cells ?D) (site (bare (500, 0))) = Some 0"
    by (simp add: model_defs box_defs)
  have h2: "clip box_kernel (area (cells ?D ! 0))
             (perpendicularBisector box_kernel (site (bare (500, 0))) (site (cells ?D ! 0))) =
            (Some ?rA, Some ?rB, Some \<lparr>data = [(250, - 1000), (250, 1000)], colour = 0\<rparr>)"
    by (simp add: model_defs box_defs)
  have h3: "contains box_kernel ?rA (site (cells ?D ! 0))
            \<or> contains box_kernel ?rB (site (cells ?D ! 0))"
    by (simp add: model_defs box_defs)
  have h4: "?rA = (if contains box_kernel ?rA (site (cells ?D ! 0)) then ?rA else ?rB)"
    by (simp add: model_defs box_defs)
  have h5: "?rB = (if contains box_kernel ?rA (site (cells ?D ! 0)) then ?rB else ?rA)"
    by (simp add: model_defs box_defs)
  from split_assigns_sides [OF h1 h2 h3 h4 h5, of 1000] h1 show ?thesis
    by (simp add: model_defs box_defs cascade.simps)
qed

section \<open>One turn of the cascade\<close>

text \<open>The step for one cell, written out.\<close>

lemma fold_plus_point:
  "fold (\<lambda>x P. poly_plus_point P x) xs P = P\<lparr>data := data P @ xs\<rparr>"
  by (induction xs arbitrary: P) (simp_all add: poly_plus_point_def)

lemma cascade_cell_effect:
  "cascade_cell K v q k st =
     (if k \<notin> usedCells st \<and> contains K (area (r_cells st ! k)) q
      then st\<lparr>usedCells := insert k (usedCells st),
              r_cells := (r_cells st)[k := clipped_cell K v (r_cells st ! k)],
              newCell := ceded K v (r_cells st ! k) (newCell st),
              rC := (rC st)\<lparr>data := data (rC st) @ pushed K v (r_cells st ! k)\<rparr>\<rparr>
      else st)"
proof (cases "k \<notin> usedCells st \<and> contains K (area (r_cells st ! k)) q")
  case False
  then show ?thesis by (auto simp: cascade_cell_skip)
next
  case True
  obtain a b rd2 where cl:
    "clip K (area (r_cells st ! k)) (perpendicularBisector K v (site (r_cells st ! k))) = (a, b, rd2)"
    by (cases "clip K (area (r_cells st ! k)) (perpendicularBisector K v (site (r_cells st ! k)))") auto
  show ?thesis
  proof (cases "\<exists>rD rE. a = Some rD \<and> b = Some rE")
    case False
    with True cl show ?thesis
      by (cases a; cases b)
         (simp_all add: cascade_cell_def Let_def clipped_cell_def ceded_def pushed_def)
  next
    case ex: True
    then obtain rD rE where ab: "a = Some rD" "b = Some rE" by blast
    from True cl ab show ?thesis
      by (cases rd2)
         (simp_all add: cascade_cell_def Let_def clipped_cell_def ceded_def pushed_def
            assign_area_def maybe_polygon_def fold_plus_point)
  qed
qed


lemma cascade_cell_newCell:
  "newCell (cascade_cell K v q k st) =
     (if k \<notin> usedCells st \<and> contains K (area (r_cells st ! k)) q
      then ceded K v (r_cells st ! k) (newCell st) else newCell st)"
  by (simp add: cascade_cell_effect)

lemma cascade_cell_rC:
  "rC (cascade_cell K v q k st) =
     (if k \<notin> usedCells st \<and> contains K (area (r_cells st ! k)) q
      then (rC st)\<lparr>data := data (rC st) @ pushed K v (r_cells st ! k)\<rparr> else rC st)"
  by (simp add: cascade_cell_effect)

lemma cascade_cell_nth:
  "k < length (r_cells st) \<Longrightarrow>
   r_cells (cascade_cell K v q k st) ! k =
     (if k \<notin> usedCells st \<and> contains K (area (r_cells st ! k)) q
      then clipped_cell K v (r_cells st ! k) else r_cells st ! k)"
  by (simp add: cascade_cell_effect)

lemma marked_step:
  "j \<noteq> k \<Longrightarrow>
   (j \<notin> usedCells (cascade_cell K v q k st)
      \<and> contains K (area (r_cells (cascade_cell K v q k st) ! j)) q) =
   (j \<notin> usedCells st \<and> contains K (area (r_cells st ! j)) q)"
  by (simp add: cascade_cell_other cascade_cell_used_eq)

lemma filter_marked_step:
  assumes "k \<notin> set ks"
  shows "filter (\<lambda>j. j \<notin> usedCells (cascade_cell K v q k st)
                    \<and> contains K (area (r_cells (cascade_cell K v q k st) ! j)) q) ks =
         filter (\<lambda>j. j \<notin> usedCells st \<and> contains K (area (r_cells st ! j)) q) ks"
proof (rule filter_cong [OF refl])
  fix j assume "j \<in> set ks"
  with assms have "j \<noteq> k" by auto
  then show "(j \<notin> usedCells (cascade_cell K v q k st)
                 \<and> contains K (area (r_cells (cascade_cell K v q k st) ! j)) q) =
             (j \<notin> usedCells st \<and> contains K (area (r_cells st ! j)) q)"
    by (rule marked_step)
qed

lemma scan_newCell:
  "distinct ks \<Longrightarrow>
   newCell (fold (cascade_cell K v q) ks st) =
     fold (\<lambda>k. ceded K v (r_cells st ! k))
       (filter (\<lambda>k. k \<notin> usedCells st \<and> contains K (area (r_cells st ! k)) q) ks)
       (newCell st)"
proof (induction ks arbitrary: st)
  case Nil
  then show ?case by simp
next
  case (Cons k ks)
  let ?st1 = "cascade_cell K v q k st"
  let ?ms = "filter (\<lambda>j. j \<notin> usedCells st \<and> contains K (area (r_cells st ! j)) q) ks"
  from Cons.prems have k: "k \<notin> set ks" and d: "distinct ks" by auto
  have "newCell (fold (cascade_cell K v q) (k # ks) st) =
        fold (\<lambda>j. ceded K v (r_cells ?st1 ! j)) ?ms (newCell ?st1)"
    using Cons.IH [OF d, of ?st1] by (simp add: filter_marked_step [OF k])
  also have "\<dots> = fold (\<lambda>j. ceded K v (r_cells st ! j)) ?ms (newCell ?st1)"
  proof (rule fold_cong [OF refl refl])
    fix j assume "j \<in> set ?ms"
    with k have "j \<noteq> k" by auto
    then show "ceded K v (r_cells ?st1 ! j) = ceded K v (r_cells st ! j)"
      by (simp add: cascade_cell_other)
  qed
  finally show ?case
    by (simp add: cascade_cell_newCell)
qed

lemma scan_rC:
  "distinct ks \<Longrightarrow>
   rC (fold (cascade_cell K v q) ks st) =
     (rC st)\<lparr>data := data (rC st) @
        concat (map (\<lambda>k. pushed K v (r_cells st ! k))
          (filter (\<lambda>k. k \<notin> usedCells st \<and> contains K (area (r_cells st ! k)) q) ks))\<rparr>"
proof (induction ks arbitrary: st)
  case Nil
  then show ?case by simp
next
  case (Cons k ks)
  let ?st1 = "cascade_cell K v q k st"
  let ?ms = "filter (\<lambda>j. j \<notin> usedCells st \<and> contains K (area (r_cells st ! j)) q) ks"
  from Cons.prems have k: "k \<notin> set ks" and d: "distinct ks" by auto
  have "map (\<lambda>j. pushed K v (r_cells ?st1 ! j)) ?ms = map (\<lambda>j. pushed K v (r_cells st ! j)) ?ms"
  proof (rule map_cong [OF refl])
    fix j assume "j \<in> set ?ms"
    with k have "j \<noteq> k" by auto
    then show "pushed K v (r_cells ?st1 ! j) = pushed K v (r_cells st ! j)"
      by (simp add: cascade_cell_other)
  qed
  then have e: "concat (map (\<lambda>j. pushed K v (r_cells ?st1 ! j)) ?ms) =
                concat (map (\<lambda>j. pushed K v (r_cells st ! j)) ?ms)"
    by (rule arg_cong)
  have "rC (fold (cascade_cell K v q) (k # ks) st) = rC (fold (cascade_cell K v q) ks ?st1)"
    by simp
  also have "\<dots> = (rC ?st1)\<lparr>data := data (rC ?st1) @
                      concat (map (\<lambda>j. pushed K v (r_cells ?st1 ! j)) ?ms)\<rparr>"
    using Cons.IH [OF d, of ?st1] by (simp only: filter_marked_step [OF k])
  also have "\<dots> = (rC ?st1)\<lparr>data := data (rC ?st1) @
                      concat (map (\<lambda>j. pushed K v (r_cells st ! j)) ?ms)\<rparr>"
    by (simp only: e)
  finally show ?case
    by (simp add: cascade_cell_rC)
qed

lemma scan_cells_nth:
  "distinct ks \<Longrightarrow> \<forall>k \<in> set ks. k < length (r_cells st) \<Longrightarrow>
   r_cells (fold (cascade_cell K v q) ks st) ! j =
     (if j \<in> set ks \<and> j \<notin> usedCells st \<and> contains K (area (r_cells st ! j)) q
      then clipped_cell K v (r_cells st ! j) else r_cells st ! j)"
proof (induction ks arbitrary: st)
  case Nil
  then show ?case by simp
next
  case (Cons k ks)
  let ?st1 = "cascade_cell K v q k st"
  from Cons.prems have k: "k \<notin> set ks" and d: "distinct ks"
    and kl: "k < length (r_cells st)" by auto
  have b: "\<forall>i \<in> set ks. i < length (r_cells ?st1)"
    using Cons.prems(2) by (simp add: cascade_cell_length)
  have ih: "r_cells (fold (cascade_cell K v q) (k # ks) st) ! j =
     (if j \<in> set ks \<and> j \<notin> usedCells ?st1 \<and> contains K (area (r_cells ?st1 ! j)) q
      then clipped_cell K v (r_cells ?st1 ! j) else r_cells ?st1 ! j)"
    using Cons.IH [OF d b] by simp
  show ?case
  proof (cases "j = k")
    case True
    have "r_cells (fold (cascade_cell K v q) (k # ks) st) ! j = r_cells ?st1 ! k"
      using ih True k by simp
    also have "\<dots> = (if k \<notin> usedCells st \<and> contains K (area (r_cells st ! k)) q
                      then clipped_cell K v (r_cells st ! k) else r_cells st ! k)"
      using kl by (rule cascade_cell_nth)
    finally show ?thesis using True by simp
  next
    case False
    then show ?thesis
      unfolding ih using False by (auto simp: cascade_cell_other cascade_cell_used_eq split: if_splits)
  qed
qed

lemma scan_cells:
  "r_cells (cascade_scan K v q st) =
     map (\<lambda>k. if k \<notin> usedCells st \<and> contains K (area (r_cells st ! k)) q
               then clipped_cell K v (r_cells st ! k) else r_cells st ! k)
       [0..<length (r_cells st)]"
proof (rule nth_equalityI)
  show "length (r_cells (cascade_scan K v q st)) =
        length (map (\<lambda>k. if k \<notin> usedCells st \<and> contains K (area (r_cells st ! k)) q
               then clipped_cell K v (r_cells st ! k) else r_cells st ! k)
       [0..<length (r_cells st)])"
    by (simp add: cascade_scan_def scan_length)
next
  fix j assume "j < length (r_cells (cascade_scan K v q st))"
  then have j: "j < length (r_cells st)" by (simp add: cascade_scan_def scan_length)
  have "r_cells (cascade_scan K v q st) ! j =
     (if j \<in> set [0..<length (r_cells st)] \<and> j \<notin> usedCells st \<and> contains K (area (r_cells st ! j)) q
      then clipped_cell K v (r_cells st ! j) else r_cells st ! j)"
    unfolding cascade_scan_def by (rule scan_cells_nth) simp_all
  with j show "r_cells (cascade_scan K v q st) ! j =
        map (\<lambda>k. if k \<notin> usedCells st \<and> contains K (area (r_cells st ! k)) q
               then clipped_cell K v (r_cells st ! k) else r_cells st ! k)
       [0..<length (r_cells st)] ! j"
    by simp
qed

text \<open>
  C5, as the code has it. In a turn of the cascade for the popped point \<open>q\<close>, every cell
  that is not yet used and whose polygon contains \<open>q\<close> is marked used and clipped, not
  only the first one: each such cell gets the side of its clip that contains its site,
  the other side is added to the area of the new cell, in the order of the cells, and
  the remainder of each clip that gives both sides goes to the end of the worklist. All
  other cells stay as they are. The cells marked before stay marked, and \<open>q\<close> is no longer
  in the worklist at the end of the turn, whether or not a cell contained it.
\<close>

theorem iteration_marks_every_containing_cell:
  assumes "data (rC st) = q # qs"
  shows "usedCells (cascade_iteration K v st) =
           usedCells st \<union> {k. k < length (r_cells st) \<and> contains K (area (r_cells st ! k)) q}
       \<and> q \<notin> set (data (rC (cascade_iteration K v st)))
       \<and> r_cells (cascade_iteration K v st) =
           map (\<lambda>k. if k \<notin> usedCells st \<and> contains K (area (r_cells st ! k)) q
                     then clipped_cell K v (r_cells st ! k) else r_cells st ! k)
             [0..<length (r_cells st)]
       \<and> newCell (cascade_iteration K v st) =
           fold (\<lambda>k. ceded K v (r_cells st ! k))
             (filter (\<lambda>k. k \<notin> usedCells st \<and> contains K (area (r_cells st ! k)) q)
                [0..<length (r_cells st)])
             (newCell st)
       \<and> data (rC (cascade_iteration K v st)) =
           filter (\<lambda>y. y \<noteq> q)
             (data (rC st) @
              concat (map (\<lambda>k. pushed K v (r_cells st ! k))
                (filter (\<lambda>k. k \<notin> usedCells st \<and> contains K (area (r_cells st ! k)) q)
                   [0..<length (r_cells st)])))"
proof -
  have c: "r_cells (cascade_iteration K v st) = r_cells (cascade_scan K v q st)"
    and n: "newCell (cascade_iteration K v st) = newCell (cascade_scan K v q st)"
    and r: "data (rC (cascade_iteration K v st)) =
            filter (\<lambda>y. y \<noteq> q) (data (rC (cascade_scan K v q st)))"
    using assms by (simp_all add: cascade_iteration_def Let_def poly_minus_point_def)
  have n': "newCell (cascade_scan K v q st) =
           fold (\<lambda>k. ceded K v (r_cells st ! k))
             (filter (\<lambda>k. k \<notin> usedCells st \<and> contains K (area (r_cells st ! k)) q)
                [0..<length (r_cells st)])
             (newCell st)"
    unfolding cascade_scan_def by (rule scan_newCell) simp
  have r': "rC (cascade_scan K v q st) =
     (rC st)\<lparr>data := data (rC st) @
        concat (map (\<lambda>k. pushed K v (r_cells st ! k))
          (filter (\<lambda>k. k \<notin> usedCells st \<and> contains K (area (r_cells st ! k)) q)
             [0..<length (r_cells st)]))\<rparr>"
    unfolding cascade_scan_def by (rule scan_rC) simp
  show ?thesis
    using iteration_used [OF assms, of K v] iteration_popped [OF assms, of K v]
    unfolding c n r n' r' scan_cells by simp
qed

text \<open>
  A turn that clips: the new site is \<open>(500, 0)\<close>, the popped point \<open>(250, 1000)\<close> lies in the
  cell of \<open>(500, 1000)\<close>, which is cut at \<open>y = 500\<close>; the cell keeps its upper part and the
  new cell takes the lower one.
\<close>

theorem iteration_marks_every_containing_cell_witness:
  "data (rC \<lparr>r_cells = [box_cell (0, 0) (- 1000) 250 (- 1000) 1000,
                        box_cell (500, 1000) 0 1000 200 1000],
             usedCells = {0}, newCell = box 250 1000 (- 1000) 1000 0,
             rC = \<lparr>data = [(250, 1000)], colour = 0 :: nat\<rparr>\<rparr>) = (250, 1000) # []
   \<and> usedCells
       (cascade_iteration box_kernel (500, 0)
          \<lparr>r_cells = [box_cell (0, 0) (- 1000) 250 (- 1000) 1000,
                      box_cell (500, 1000) 0 1000 200 1000],
           usedCells = {0}, newCell = box 250 1000 (- 1000) 1000 0,
           rC = \<lparr>data = [(250, 1000)], colour = 0\<rparr>\<rparr>) = {0, 1}
   \<and> r_cells
       (cascade_iteration box_kernel (500, 0)
          \<lparr>r_cells = [box_cell (0, 0) (- 1000) 250 (- 1000) 1000,
                      box_cell (500, 1000) 0 1000 200 1000],
           usedCells = {0}, newCell = box 250 1000 (- 1000) 1000 0,
           rC = \<lparr>data = [(250, 1000)], colour = 0\<rparr>\<rparr>) =
       [box_cell (0, 0) (- 1000) 250 (- 1000) 1000, box_cell (500, 1000) 0 1000 500 1000]
   \<and> newCell
       (cascade_iteration box_kernel (500, 0)
          \<lparr>r_cells = [box_cell (0, 0) (- 1000) 250 (- 1000) 1000,
                      box_cell (500, 1000) 0 1000 200 1000],
           usedCells = {0}, newCell = box 250 1000 (- 1000) 1000 0,
           rC = \<lparr>data = [(250, 1000)], colour = 0\<rparr>\<rparr>) = box 0 1000 (- 1000) 1000 0
   \<and> data (rC
       (cascade_iteration box_kernel (500, 0)
          \<lparr>r_cells = [box_cell (0, 0) (- 1000) 250 (- 1000) 1000,
                      box_cell (500, 1000) 0 1000 200 1000],
           usedCells = {0}, newCell = box 250 1000 (- 1000) 1000 0,
           rC = \<lparr>data = [(250, 1000)], colour = 0\<rparr>\<rparr>)) = [(0, 500), (1000, 500)]"
proof -
  let ?st = "\<lparr>r_cells = [box_cell (0, 0) (- 1000) 250 (- 1000) 1000,
                        box_cell (500, 1000) 0 1000 200 1000],
             usedCells = {0}, newCell = box 250 1000 (- 1000) 1000 0,
             rC = \<lparr>data = [(250, 1000)], colour = 0\<rparr>\<rparr> :: (rat, nat) cascade_state"
  have h: "data (rC ?st) = (250, 1000) # []" by simp
  have two: "[0..<length (r_cells ?st)] = [0, 1]"
    by (simp add: upt_rec)
  have c0: "contains box_kernel (area (r_cells ?st ! 0)) (250, 1000)"
    and c1: "contains box_kernel (area (r_cells ?st ! 1)) (250, 1000)"
    by (simp_all add: box_defs)
  have cc: "clipped_cell box_kernel (500, 0) (r_cells ?st ! 1) =
              box_cell (500, 1000) 0 1000 500 1000"
    and ce: "ceded box_kernel (500, 0) (r_cells ?st ! 1) (newCell ?st) =
              box 0 1000 (- 1000) 1000 0"
    and pu: "pushed box_kernel (500, 0) (r_cells ?st ! 1) = [(0, 500), (1000, 500)]"
    by (simp_all add: clipped_cell_def ceded_def pushed_def model_defs box_defs)
  have m: "{k. k < length (r_cells ?st)
               \<and> contains box_kernel (area (r_cells ?st ! k)) (250, 1000)} = {0, 1}"
    using c0 c1 by (auto simp: less_Suc_eq numeral_2_eq_2)
  from iteration_marks_every_containing_cell [OF h, of box_kernel "(500, 0)"]
  show ?thesis
    unfolding two m using c0 c1 cc ce pu by (simp add: insert_commute)
qed

text \<open>
  The second turn of the cascade when \<open>(600, 0)\<close> is inserted after \<open>(0, 0)\<close>, \<open>(0, 500)\<close> and
  \<open>(600, 500)\<close>: the popped point \<open>(300, 250)\<close> lies on the boundary of the cells 1 and 2,
  and both are marked used in this one turn.
\<close>

theorem iteration_counterexample:
  "usedCells
     (cascade_iteration box_kernel (600, 0)
        \<lparr>r_cells = [box_cell (0, 0) (- 1000) 300 (- 1000) 250,
                    box_cell (0, 500) (- 1000) 300 250 1000,
                    box_cell (600, 500) 300 1000 250 1000],
         usedCells = {0}, newCell = box 300 1000 (- 1000) 250 0,
         rC = \<lparr>data = [(300, 250)], colour = 0\<rparr>\<rparr>) = {0, 1, 2}"
  by (simp add: model_defs box_defs insert_commute numeral_2_eq_2)

lemma second_turn_reached:
  "insert_all box_kernel 1000 \<lparr>cells = []\<rparr> (map bare [(0, 0), (0, 500), (600, 500)]) =
     Some \<lparr>cells = [box_cell (0, 0) (- 1000) 1000 (- 1000) 250,
                     box_cell (0, 500) (- 1000) 300 250 1000,
                     box_cell (600, 500) 300 1000 250 1000]\<rparr>"
  "split_cell box_kernel
     [box_cell (0, 0) (- 1000) 1000 (- 1000) 250,
      box_cell (0, 500) (- 1000) 300 250 1000,
      box_cell (600, 500) 300 1000 250 1000] 0 (0, 0)
     (box (- 1000) 300 (- 1000) 250 0) (box 300 1000 (- 1000) 250 0) =
   Some ([box_cell (0, 0) (- 1000) 300 (- 1000) 250,
          box_cell (0, 500) (- 1000) 300 250 1000,
          box_cell (600, 500) 300 1000 250 1000], box 300 1000 (- 1000) 250 0)"
  "cascade_iteration box_kernel (600, 0)
        \<lparr>r_cells = [box_cell (0, 0) (- 1000) 300 (- 1000) 250,
                    box_cell (0, 500) (- 1000) 300 250 1000,
                    box_cell (600, 500) 300 1000 250 1000],
         usedCells = {0}, newCell = box 300 1000 (- 1000) 250 0,
         rC = \<lparr>data = [(300, - 1000), (300, 250)], colour = 0\<rparr>\<rparr> =
        \<lparr>r_cells = [box_cell (0, 0) (- 1000) 300 (- 1000) 250,
                    box_cell (0, 500) (- 1000) 300 250 1000,
                    box_cell (600, 500) 300 1000 250 1000],
         usedCells = {0}, newCell = box 300 1000 (- 1000) 250 0,
         rC = \<lparr>data = [(300, 250)], colour = 0\<rparr>\<rparr>"
  by (simp_all add: model_defs box_defs cascade.simps)

section \<open>Termination\<close>

text \<open>
  C6. The cascade loop halts from every state, with an empty worklist, and the insertion
  returns a diagram for every diagram and every cell. The reason is the last part: in
  each turn either the number of cells that are not yet used goes down (a cell is marked
  used at most once), or it stays and the worklist gets shorter, because the popped point
  leaves it and vertices are only added for a cell that becomes used.
\<close>

theorem insertion_terminates:
  "(\<exists>st'. cascade K v st = Some st' \<and> data (rC st') = [])
   \<and> (\<exists>d'. voronoi_plus K bbs this c = Some d')
   \<and> (data (rC st) \<noteq> [] \<longrightarrow>
        unused (cascade_iteration K v st) < unused st
        \<or> (unused (cascade_iteration K v st) = unused st
            \<and> length (data (rC (cascade_iteration K v st))) < length (data (rC st))))"
proof -
  have "data (rC st) \<noteq> [] \<longrightarrow>
        unused (cascade_iteration K v st) < unused st
        \<or> (unused (cascade_iteration K v st) = unused st
            \<and> length (data (rC (cascade_iteration K v st))) < length (data (rC st)))"
    using iteration_decreases [of st K v] by auto
  with cascade_halts [of K v st] voronoi_plus_result [of K bbs this c]
  show ?thesis by blast
qed

text \<open>
  The first turn of the cascade when \<open>(500, 0)\<close> is inserted next to \<open>(0, 0)\<close>: no cell is
  left to use, and the worklist gets shorter.
\<close>

theorem insertion_terminates_witness:
  "data (rC \<lparr>r_cells = [box_cell (0, 0) (- 1000) 250 (- 1000) 1000],
             usedCells = {0}, newCell = box 250 1000 (- 1000) 1000 0,
             rC = \<lparr>data = [(250, - 1000), (250, 1000)], colour = 0 :: nat\<rparr>\<rparr>) \<noteq> []
   \<and> unused (cascade_iteration box_kernel (500, 0)
        \<lparr>r_cells = [box_cell (0, 0) (- 1000) 250 (- 1000) 1000],
         usedCells = {0}, newCell = box 250 1000 (- 1000) 1000 0,
         rC = \<lparr>data = [(250, - 1000), (250, 1000)], colour = 0\<rparr>\<rparr>) = 0
   \<and> length (data (rC (cascade_iteration box_kernel (500, 0)
        \<lparr>r_cells = [box_cell (0, 0) (- 1000) 250 (- 1000) 1000],
         usedCells = {0}, newCell = box 250 1000 (- 1000) 1000 0,
         rC = \<lparr>data = [(250, - 1000), (250, 1000)], colour = 0\<rparr>\<rparr>))) < 2"
proof -
  let ?st = "\<lparr>r_cells = [box_cell (0, 0) (- 1000) 250 (- 1000) 1000],
             usedCells = {0}, newCell = box 250 1000 (- 1000) 1000 0,
             rC = \<lparr>data = [(250, - 1000), (250, 1000)], colour = 0\<rparr>\<rparr> :: (rat, nat) cascade_state"
  have h: "data (rC ?st) \<noteq> []" by simp
  have u: "unused ?st = 0" by (simp add: unused_def)
  from insertion_terminates [of box_kernel "(500, 0)" ?st 1000 "\<lparr>cells = []\<rparr>" "bare (0, 0)"]
  have "data (rC ?st) \<noteq> [] \<longrightarrow>
        unused (cascade_iteration box_kernel (500, 0) ?st) < unused ?st
        \<or> (unused (cascade_iteration box_kernel (500, 0) ?st) = unused ?st
            \<and> length (data (rC (cascade_iteration box_kernel (500, 0) ?st)))
                < length (data (rC ?st)))"
    by blast
  with h u
  have "unused (cascade_iteration box_kernel (500, 0) ?st) = 0
        \<and> length (data (rC (cascade_iteration box_kernel (500, 0) ?st))) < 2"
    by simp
  with h show ?thesis by blast
qed

section \<open>A site that no cell contains\<close>

text \<open>
  C7. If the diagram is not empty and no polygon of a cell contains the site, the
  insertion returns the diagram as it was.
\<close>

theorem outside_all_cells_is_noop:
  assumes "cells this \<noteq> []"
      and "\<forall>x \<in> set (cells this). \<not> contains K (area x) (site c)"
  shows "voronoi_plus K bbs this c = Some this"
proof -
  from assms(2) have "locate K (cells this) (site c) = None"
    by (simp add: locate_None_iff list_ex_iff)
  with assms(1) show ?thesis by (simp add: voronoi_plus_def Let_def)
qed

theorem outside_all_cells_is_noop_witness:
  "cells \<lparr>cells = [box_cell (0, 0) (- 1000) 1000 (- 1000) 1000]\<rparr> \<noteq> []
   \<and> \<not> contains box_kernel (area (box_cell (0, 0) (- 1000) 1000 (- 1000) 1000))
         (site (bare (5000, 0)))
   \<and> voronoi_plus box_kernel 1000 \<lparr>cells = [box_cell (0, 0) (- 1000) 1000 (- 1000) 1000]\<rparr>
        (bare (5000, 0))
      = Some \<lparr>cells = [box_cell (0, 0) (- 1000) 1000 (- 1000) 1000]\<rparr>"
proof -
  let ?d = "\<lparr>cells = [box_cell (0, 0) (- 1000) 1000 (- 1000) 1000]\<rparr> :: (rat, nat) voronoi"
  have h1: "cells ?d \<noteq> []" by simp
  have h: "\<not> contains box_kernel (area (box_cell (0, 0) (- 1000) 1000 (- 1000) 1000))
             (site (bare (5000, 0)))"
    by (simp add: model_defs box_defs)
  then have h2: "\<forall>x \<in> set (cells ?d). \<not> contains box_kernel (area x) (site (bare (5000, 0)))"
    by simp
  from outside_all_cells_is_noop [OF h1 h2] h1 h show ?thesis by blast
qed

section \<open>A site that the diagram already has\<close>

lemma creates_duplicate:
  "list_ex (\<lambda>x. site x = site c) (cells this) \<Longrightarrow> \<not> creates K this c"
  by (cases "cells this") (auto simp: creates_def split: option.splits prod.splits)

text \<open>
  C8, as the code has it. Inserting a site that a cell of the diagram already has
  returns a diagram with the same cells in the same order as far as their sites and
  colours go: no cell is added and none is removed. The areas may change.
\<close>

theorem duplicate_site_adds_no_cell:
  assumes "site c \<in> set (map site (cells this))"
  shows "\<exists>d'. voronoi_plus K bbs this c = Some d'
             \<and> map site (cells d') = map site (cells this)
             \<and> map cell.colour (cells d') = map cell.colour (cells this)"
proof -
  from assms have "list_ex (\<lambda>x. site x = site c) (cells this)"
    by (auto simp: list_ex_iff)
  then have "\<not> creates K this c" by (rule creates_duplicate)
  with voronoi_plus_result [of K bbs this c] show ?thesis by auto
qed

theorem duplicate_site_adds_no_cell_witness:
  "site (bare (0, 0)) \<in> set (map site (cells \<lparr>cells = [box_cell (0, 0) (- 1000) 1000 (- 1000) 1000]\<rparr>))
   \<and> voronoi_plus box_kernel 1000 \<lparr>cells = [box_cell (0, 0) (- 1000) 1000 (- 1000) 1000]\<rparr>
        (bare (0, 0))
      = Some \<lparr>cells = [box_cell (0, 0) (- 1000) 1000 (- 1000) 1000]\<rparr>"
proof -
  let ?d = "\<lparr>cells = [box_cell (0, 0) (- 1000) 1000 (- 1000) 1000]\<rparr> :: (rat, nat) voronoi"
  have h: "site (bare (0, 0)) \<in> set (map site (cells ?d))"
    by (simp add: box_defs cell_of_site_def)
  have "voronoi_plus box_kernel 1000 ?d (bare (0, 0)) = Some ?d"
    by (simp add: model_defs box_defs)
  with duplicate_site_adds_no_cell [OF h, of box_kernel 1000] h show ?thesis by simp
qed

text \<open>
  After \<open>(0, 0)\<close>, \<open>(-500, 0)\<close> and \<open>(-250, 0)\<close> the site \<open>(-250, 0)\<close> lies on the boundary of the
  cell of \<open>(-500, 0)\<close>, which comes before its own cell. Inserting \<open>(-250, 0)\<close> again locates
  that cell and cuts it at \<open>x = -375\<close>; the diagram that comes back is not the one that
  went in.
\<close>

theorem duplicate_site_counterexample:
  "insert_all box_kernel 1000 \<lparr>cells = []\<rparr> (map bare [(0, 0), (- 500, 0), (- 250, 0)]) =
     Some \<lparr>cells = [box_cell (0, 0) (- 125) 1000 (- 1000) 1000,
                     box_cell (- 500, 0) (- 1000) (- 250) (- 1000) 1000,
                     box_cell (- 250, 0) (- 250) (- 125) (- 1000) 1000]\<rparr>
   \<and> voronoi_plus box_kernel 1000
        \<lparr>cells = [box_cell (0, 0) (- 125) 1000 (- 1000) 1000,
                  box_cell (- 500, 0) (- 1000) (- 250) (- 1000) 1000,
                  box_cell (- 250, 0) (- 250) (- 125) (- 1000) 1000]\<rparr>
        (bare (- 250, 0)) =
     Some \<lparr>cells = [box_cell (0, 0) (- 125) 1000 (- 1000) 1000,
                     box_cell (- 500, 0) (- 1000) (- 375) (- 1000) 1000,
                     box_cell (- 250, 0) (- 250) (- 125) (- 1000) 1000]\<rparr>
   \<and> box_cell (- 500, 0) (- 1000) (- 375) (- 1000) 1000
       \<noteq> box_cell (- 500, 0) (- 1000) (- 250) (- 1000) 1000"
  by (simp add: model_defs box_defs cascade.simps)

section \<open>A cell that the cascade reaches\<close>

lemma cascade_cell_unsplit:
  "unsplit K v (r_cells st ! k) \<Longrightarrow>
   r_cells (cascade_cell K v q k st) = r_cells st \<and> newCell (cascade_cell K v q k st) = newCell st"
  by (auto simp: unsplit_def cascade_cell_def Let_def split: prod.splits option.splits)

lemma iteration_used_mono: "usedCells st \<subseteq> usedCells (cascade_iteration K v st)"
proof (cases "data (rC st)")
  case Nil
  then show ?thesis by (simp add: cascade_iteration_def)
next
  case (Cons q qs)
  then show ?thesis by (simp add: iteration_used)
qed

text \<open>
  C9. In the scan of the cascade a cell \<open>k\<close> that is not yet used and whose polygon
  contains the popped point is marked used whatever its clip gives. If the clip gives
  fewer than two sides, or neither side contains the site of the cell, the cells and the
  area of the new cell stay as they were. Once \<open>k\<close> is used, the step for \<open>k\<close> changes
  nothing in any state, for any popped point, and \<open>k\<close> stays used after every turn.
\<close>

theorem used_cell_is_left_alone:
  assumes "k \<notin> usedCells st" and "contains K (area (r_cells st ! k)) q"
  shows "usedCells (cascade_cell K v q k st) = insert k (usedCells st)
       \<and> (unsplit K v (r_cells st ! k) \<longrightarrow>
            r_cells (cascade_cell K v q k st) = r_cells st
            \<and> newCell (cascade_cell K v q k st) = newCell st)
       \<and> (\<forall>st' q'. k \<in> usedCells st' \<longrightarrow>
            cascade_cell K v q' k st' = st' \<and> k \<in> usedCells (cascade_iteration K v st'))"
proof -
  have "usedCells (cascade_cell K v q k st) = insert k (usedCells st)"
    using assms by (rule cascade_cell_used)
  moreover have "unsplit K v (r_cells st ! k) \<longrightarrow>
            r_cells (cascade_cell K v q k st) = r_cells st
            \<and> newCell (cascade_cell K v q k st) = newCell st"
    using cascade_cell_unsplit by blast
  moreover have "\<forall>st' q'. k \<in> usedCells st' \<longrightarrow>
            cascade_cell K v q' k st' = st' \<and> k \<in> usedCells (cascade_iteration K v st')"
    using cascade_cell_skip iteration_used_mono by blast
  ultimately show ?thesis by blast
qed

theorem used_cell_is_left_alone_witness:
  "1 \<notin> usedCells
          \<lparr>r_cells = [box_cell (0, 0) (- 1000) 300 (- 1000) 250,
                      box_cell (0, 500) (- 1000) 300 250 1000],
           usedCells = {0}, newCell = box 300 1000 (- 1000) 250 0,
           rC = \<lparr>data = [(300, 250)], colour = 0\<rparr>\<rparr>
   \<and> contains box_kernel (area (box_cell (0, 500) (- 1000) 300 250 1000)) (300, 250)
   \<and> unsplit box_kernel (600, 0) (box_cell (0, 500) (- 1000) 300 250 1000)
   \<and> cascade_cell box_kernel (600, 0) (300, 250) 1
        \<lparr>r_cells = [box_cell (0, 0) (- 1000) 300 (- 1000) 250,
                    box_cell (0, 500) (- 1000) 300 250 1000],
         usedCells = {0}, newCell = box 300 1000 (- 1000) 250 0,
         rC = \<lparr>data = [(300, 250)], colour = 0\<rparr>\<rparr> =
        \<lparr>r_cells = [box_cell (0, 0) (- 1000) 300 (- 1000) 250,
                    box_cell (0, 500) (- 1000) 300 250 1000],
         usedCells = {0, 1}, newCell = box 300 1000 (- 1000) 250 0,
         rC = \<lparr>data = [(300, 250)], colour = 0\<rparr>\<rparr>"
proof -
  let ?st = "\<lparr>r_cells = [box_cell (0, 0) (- 1000) 300 (- 1000) 250,
                      box_cell (0, 500) (- 1000) 300 250 1000],
           usedCells = {0}, newCell = box 300 1000 (- 1000) 250 0,
           rC = \<lparr>data = [(300, 250)], colour = 0\<rparr>\<rparr> :: (rat, nat) cascade_state"
  have h1: "1 \<notin> usedCells ?st" by simp
  have h2: "contains box_kernel (area (r_cells ?st ! 1)) (300, 250)"
    by (simp add: box_defs)
  have h3: "unsplit box_kernel (600, 0) (box_cell (0, 500) (- 1000) 300 250 1000)"
    by (simp add: unsplit_def model_defs box_defs)
  have h4: "cascade_cell box_kernel (600, 0) (300, 250) 1 ?st =
            ?st\<lparr>usedCells := {0, 1}\<rparr>"
    by (simp add: model_defs box_defs insert_commute)
  from used_cell_is_left_alone [OF h1 h2, of "(600, 0)"] h1 h2 h3 h4 show ?thesis
    by simp
qed

section \<open>The colour of the inserted cell\<close>

lemma geometry_set_plus:
  "map (\<lambda>x. (site x, data (area x))) (set_plus cell_eq cs (cell_of_area v P col)) =
   map (\<lambda>x. (site x, data (area x))) cs @ (if list_ex (\<lambda>y. site y = v) cs then [] else [(v, data P)])"
  by (simp add: set_plus_def cell_eq_def cell_of_area_def)

lemma geometry_finish:
  "map_option geometry
     (m \<bind> (\<lambda>st. Some (this\<lparr>cells := set_plus cell_eq (r_cells st)
                                        (cell_of_area v (newCell st) col)\<rparr>))) =
   map_option geometry
     (m \<bind> (\<lambda>st. Some (this\<lparr>cells := set_plus cell_eq (r_cells st)
                                        (cell_of_area v (newCell st) col')\<rparr>)))"
  by (cases m) (simp_all add: geometry_def geometry_set_plus)

lemma voronoi_plus_geometry:
  assumes "site c = site c'"
  shows "map_option geometry (voronoi_plus K bbs this c) =
         map_option geometry (voronoi_plus K bbs this c')"
proof (cases "cells this = []")
  case True
  then show ?thesis using assms
    by (simp add: voronoi_plus_def Let_def geometry_def geometry_set_plus)
next
  case ne: False
  show ?thesis
  proof (cases "locate K (cells this) (site c')")
    case None
    with ne assms show ?thesis by (simp add: voronoi_plus_def Let_def)
  next
    case (Some i)
    let ?u = "site (cells this ! i)"
    obtain a b rd2 where cl:
      "clip K (area (cells this ! i)) (perpendicularBisector K (site c') ?u) = (a, b, rd2)"
      by (cases "clip K (area (cells this ! i)) (perpendicularBisector K (site c') ?u)") auto
    show ?thesis
    proof (cases "\<exists>rA rB. a = Some rA \<and> b = Some rB")
      case False
      with ne assms Some cl show ?thesis
        by (cases a; cases b) (simp_all add: voronoi_plus_def Let_def)
    next
      case True
      then obtain rA rB where ab: "a = Some rA" "b = Some rB" by blast
      show ?thesis
      proof (cases "split_cell K (cells this) i ?u rA rB")
        case None
        with ne assms Some cl ab show ?thesis
          by (simp add: voronoi_plus_def Let_def geometry_def geometry_set_plus)
      next
        case sp: (Some r)
        obtain cs P where r: "r = (cs, P)" by (cases r)
        show ?thesis
          using ne assms Some cl ab sp r
          by (simp add: voronoi_plus_def Let_def geometry_finish [where col = "cell.colour c" and col' = "cell.colour c'"])
      qed
    qed
  qed
qed

text \<open>
  The operator under a colour-blind kernel: diagrams with the same sites and the same
  vertices give results with the same sites and the same vertices.
\<close>

lemma blind_contains:
  "colour_blind K \<Longrightarrow> data P = data P' \<Longrightarrow> contains K P q = contains K P' q"
  unfolding colour_blind_def by blast

lemma blind_union:
  "colour_blind K \<Longrightarrow> data P = data P' \<Longrightarrow> data Q = data Q' \<Longrightarrow>
   data (poly_union K P Q) = data (poly_union K P' Q')"
  unfolding colour_blind_def by blast

lemma blind_clip:
  assumes "colour_blind K" and "data P = data P'"
  obtains a b r a' b' r' where "clip K P l = (a, b, r)" and "clip K P' l = (a', b', r')"
    and "map_option data a = map_option data a'"
    and "map_option data b = map_option data b'"
    and "map_option data r = map_option data r'"
proof -
  from assms have "sides (clip K P l) = sides (clip K P' l)"
    unfolding colour_blind_def by blast
  then show ?thesis
    by (cases "clip K P l"; cases "clip K P' l") (auto simp: sides_def intro: that)
qed

lemma blind_clipped_cell:
  assumes "colour_blind K" and "site c = site c'" and "data (area c) = data (area c')"
  shows "site (clipped_cell K v c) = site (clipped_cell K v c')"
    and "data (area (clipped_cell K v c)) = data (area (clipped_cell K v c'))"
proof -
  obtain a b r a' b' r' where
    cl: "clip K (area c) (perpendicularBisector K v (site c)) = (a, b, r)"
        "clip K (area c') (perpendicularBisector K v (site c)) = (a', b', r')"
    and eq: "map_option data a = map_option data a'" "map_option data b = map_option data b'"
    using blind_clip [OF assms(1,3)] by metis
  have "site (clipped_cell K v c) = site (clipped_cell K v c')
      \<and> data (area (clipped_cell K v c)) = data (area (clipped_cell K v c'))"
  proof (cases a)
    case None
    with eq cl assms show ?thesis by (auto simp: clipped_cell_def)
  next
    case sa: (Some rD)
    with eq obtain rD' where a': "a' = Some rD'" "data rD = data rD'" by (cases a') auto
    show ?thesis
    proof (cases b)
      case None
      with eq cl sa a' assms show ?thesis by (auto simp: clipped_cell_def)
    next
      case sb: (Some rE)
      with eq obtain rE' where b': "b' = Some rE'" "data rE = data rE'" by (cases b') auto
      have cD: "contains K rD (site c) = contains K rD' (site c)"
        by (rule blind_contains [OF assms(1) a'(2)])
      have cE: "contains K rE (site c) = contains K rE' (site c)"
        by (rule blind_contains [OF assms(1) b'(2)])
      from cD cE cl sa sb a' b' assms show ?thesis
        by (simp add: clipped_cell_def)
    qed
  qed
  then show "site (clipped_cell K v c) = site (clipped_cell K v c')"
    and "data (area (clipped_cell K v c)) = data (area (clipped_cell K v c'))"
    by simp_all
qed

lemma blind_ceded:
  assumes "colour_blind K" and "site c = site c'" and "data (area c) = data (area c')"
      and "data P = data P'"
  shows "data (ceded K v c P) = data (ceded K v c' P')"
proof -
  obtain a b r a' b' r' where
    cl: "clip K (area c) (perpendicularBisector K v (site c)) = (a, b, r)"
        "clip K (area c') (perpendicularBisector K v (site c)) = (a', b', r')"
    and eq: "map_option data a = map_option data a'" "map_option data b = map_option data b'"
    using blind_clip [OF assms(1,3)] by metis
  show ?thesis
  proof (cases a)
    case None
    with eq cl assms show ?thesis by (auto simp: ceded_def)
  next
    case sa: (Some rD)
    with eq obtain rD' where a': "a' = Some rD'" "data rD = data rD'" by (cases a') auto
    show ?thesis
    proof (cases b)
      case None
      with eq cl sa a' assms show ?thesis by (auto simp: ceded_def)
    next
      case sb: (Some rE)
      with eq obtain rE' where b': "b' = Some rE'" "data rE = data rE'" by (cases b') auto
      have cD: "contains K rD (site c) = contains K rD' (site c)"
        by (rule blind_contains [OF assms(1) a'(2)])
      have cE: "contains K rE (site c) = contains K rE' (site c)"
        by (rule blind_contains [OF assms(1) b'(2)])
      have uE: "data (poly_union K P rE) = data (poly_union K P' rE')"
        by (rule blind_union [OF assms(1,4) b'(2)])
      have uD: "data (poly_union K P rD) = data (poly_union K P' rD')"
        by (rule blind_union [OF assms(1,4) a'(2)])
      from cD cE uD uE cl sa sb a' b' assms(2,4) show ?thesis
        by (simp add: ceded_def)
    qed
  qed
qed

lemma blind_pushed:
  assumes "colour_blind K" and "site c = site c'" and "data (area c) = data (area c')"
  shows "pushed K v c = pushed K v c'"
proof -
  obtain a b r a' b' r' where
    cl: "clip K (area c) (perpendicularBisector K v (site c)) = (a, b, r)"
        "clip K (area c') (perpendicularBisector K v (site c)) = (a', b', r')"
    and eq: "map_option data a = map_option data a'" "map_option data b = map_option data b'"
        "map_option data r = map_option data r'"
    using blind_clip [OF assms(1,3)] by metis
  from eq cl assms(2) show ?thesis
    by (cases a; cases b; cases r; cases a'; cases b'; cases r') (simp_all add: pushed_def)
qed
lemma shape_nth:
  assumes "map (\<lambda>x. (site x, data (area x))) cs = map (\<lambda>x. (site x, data (area x))) cs'"
      and "k < length cs"
  shows "site (cs ! k) = site (cs' ! k)" and "data (area (cs ! k)) = data (area (cs' ! k))"
    and "length cs = length cs'"
proof -
  from assms(1) have l: "length cs = length cs'" by (rule map_eq_imp_length_eq)
  from assms(1) have "map (\<lambda>x. (site x, data (area x))) cs ! k =
                      map (\<lambda>x. (site x, data (area x))) cs' ! k" by simp
  with assms(2) l have "(site (cs ! k), data (area (cs ! k))) =
                        (site (cs' ! k), data (area (cs' ! k)))" by simp
  then show "site (cs ! k) = site (cs' ! k)" and "data (area (cs ! k)) = data (area (cs' ! k))"
    by simp_all
  show "length cs = length cs'" by (rule l)
qed

lemma blind_cascade_cell:
  assumes b: "colour_blind K" and s: "same_shape s s'" and k: "k < length (r_cells s)"
  shows "same_shape (cascade_cell K v q k s) (cascade_cell K v q k s')"
proof -
  from s have m: "map (\<lambda>x. (site x, data (area x))) (r_cells s) =
                  map (\<lambda>x. (site x, data (area x))) (r_cells s')"
    and u: "usedCells s = usedCells s'" and n: "data (newCell s) = data (newCell s')"
    and r: "data (rC s) = data (rC s')"
    by (simp_all add: same_shape_def)
  note e = shape_nth [OF m k]
  have c: "contains K (area (r_cells s ! k)) q = contains K (area (r_cells s' ! k)) q"
    by (rule blind_contains [OF b e(2)])
  show ?thesis
  proof (cases "k \<notin> usedCells s \<and> contains K (area (r_cells s ! k)) q")
    case False
    then have 1: "cascade_cell K v q k s = s"
      by (intro cascade_cell_skip) blast
    from False u c have 2: "cascade_cell K v q k s' = s'"
      by (intro cascade_cell_skip) blast
    from s show ?thesis unfolding 1 2 .
  next
    case True
    with u c have T': "k \<notin> usedCells s' \<and> contains K (area (r_cells s' ! k)) q" by simp
    have 1: "cascade_cell K v q k s =
               s\<lparr>usedCells := insert k (usedCells s),
                 r_cells := (r_cells s)[k := clipped_cell K v (r_cells s ! k)],
                 newCell := ceded K v (r_cells s ! k) (newCell s),
                 rC := (rC s)\<lparr>data := data (rC s) @ pushed K v (r_cells s ! k)\<rparr>\<rparr>"
      using True by (simp only: cascade_cell_effect if_True simp_thms)
    have 2: "cascade_cell K v q k s' =
               s'\<lparr>usedCells := insert k (usedCells s'),
                  r_cells := (r_cells s')[k := clipped_cell K v (r_cells s' ! k)],
                  newCell := ceded K v (r_cells s' ! k) (newCell s'),
                  rC := (rC s')\<lparr>data := data (rC s') @ pushed K v (r_cells s' ! k)\<rparr>\<rparr>"
      using T' by (simp only: cascade_cell_effect if_True simp_thms)
    have "(site (clipped_cell K v (r_cells s ! k)), data (area (clipped_cell K v (r_cells s ! k)))) =
          (site (clipped_cell K v (r_cells s' ! k)), data (area (clipped_cell K v (r_cells s' ! k))))"
      using blind_clipped_cell [OF b e(1,2)] by simp
    then have A: "map (\<lambda>x. (site x, data (area x))) ((r_cells s)[k := clipped_cell K v (r_cells s ! k)]) =
          map (\<lambda>x. (site x, data (area x))) ((r_cells s')[k := clipped_cell K v (r_cells s' ! k)])"
      by (simp add: map_update m)
    have B: "data (ceded K v (r_cells s ! k) (newCell s)) =
                   data (ceded K v (r_cells s' ! k) (newCell s'))"
      by (rule blind_ceded [OF b e(1,2) n])
    have C: "pushed K v (r_cells s ! k) = pushed K v (r_cells s' ! k)"
      by (rule blind_pushed [OF b e(1,2)])
    show ?thesis
      unfolding 1 2 same_shape_def using A B C u r by simp
  qed
qed

lemma same_shape_length: "same_shape s s' \<Longrightarrow> length (r_cells s) = length (r_cells s')"
  by (auto simp: same_shape_def dest: map_eq_imp_length_eq)

lemma blind_scan:
  assumes b: "colour_blind K"
  shows "same_shape s s' \<Longrightarrow> \<forall>k \<in> set ks. k < length (r_cells s) \<Longrightarrow>
         same_shape (fold (cascade_cell K v q) ks s) (fold (cascade_cell K v q) ks s')"
proof (induction ks arbitrary: s s')
  case Nil
  then show ?case by simp
next
  case (Cons k ks)
  from Cons.prems have k: "k < length (r_cells s)" by simp
  have 1: "same_shape (cascade_cell K v q k s) (cascade_cell K v q k s')"
    by (rule blind_cascade_cell [OF b Cons.prems(1) k])
  have 2: "\<forall>j \<in> set ks. j < length (r_cells (cascade_cell K v q k s))"
    using Cons.prems(2) by (simp add: cascade_cell_length)
  from Cons.IH [OF 1 2] show ?case by simp
qed

lemma blind_iteration:
  assumes b: "colour_blind K" and s: "same_shape s s'"
  shows "same_shape (cascade_iteration K v s) (cascade_iteration K v s')"
proof (cases "data (rC s)")
  case Nil
  with s show ?thesis by (simp add: cascade_iteration_def same_shape_def)
next
  case (Cons q qs)
  with s have r': "data (rC s') = q # qs" by (simp add: same_shape_def)
  have "same_shape (cascade_scan K v q s) (cascade_scan K v q s')"
    unfolding cascade_scan_def same_shape_length [OF s, symmetric]
    by (rule blind_scan [OF b s]) simp
  with Cons r' show ?thesis
    by (simp add: cascade_iteration_def Let_def same_shape_def poly_minus_point_def)
qed

lemma blind_cascade:
  assumes b: "colour_blind K"
  shows "same_shape s s' \<Longrightarrow>
         \<exists>r r'. cascade K v s = Some r \<and> cascade K v s' = Some r' \<and> same_shape r r'"
proof (induction s arbitrary: s'
    rule: wf_induct_rule [OF wf_measures [of "[unused, \<lambda>s. length (data (rC s))]"]])
  case (1 s)
  show ?case
  proof (cases "data (rC s) = []")
    case True
    with 1(2) have "data (rC s') = []" by (simp add: same_shape_def)
    with True 1(2) show ?thesis by (simp add: cascade.simps)
  next
    case False
    with 1(2) have F': "data (rC s') \<noteq> []" by (simp add: same_shape_def)
    from 1(1) [OF iteration_decreases [OF False, of K v] blind_iteration [OF b 1(2), of v]]
    obtain r r' where "cascade K v (cascade_iteration K v s) = Some r"
      "cascade K v (cascade_iteration K v s') = Some r'" "same_shape r r'"
      by blast
    moreover have "cascade K v s = cascade K v (cascade_iteration K v s)"
      using False by (subst cascade.simps) simp
    moreover have "cascade K v s' = cascade K v (cascade_iteration K v s')"
      using F' by (subst cascade.simps) simp
    ultimately show ?thesis by simp
  qed
qed

lemma blind_locate:
  assumes b: "colour_blind K"
  shows "map (\<lambda>x. (site x, data (area x))) cs = map (\<lambda>x. (site x, data (area x))) cs' \<Longrightarrow>
         locate K cs v = locate K cs' v"
proof (induction cs arbitrary: cs')
  case Nil
  then show ?case by simp
next
  case (Cons c cs)
  then obtain c' cs1 where cs': "cs' = c' # cs1" by (cases cs') auto
  with Cons.prems have d: "data (area c) = data (area c')"
    and t: "map (\<lambda>x. (site x, data (area x))) cs = map (\<lambda>x. (site x, data (area x))) cs1"
    by simp_all
  have "contains K (area c) v = contains K (area c') v"
    by (rule blind_contains [OF b d])
  with Cons.IH [OF t] cs' show ?case by simp
qed

lemma shape_list_ex:
  assumes "map (\<lambda>x. (site x, data (area x))) cs = map (\<lambda>x. (site x, data (area x))) cs'"
  shows "list_ex (\<lambda>y. site y = v) cs = list_ex (\<lambda>y. site y = v) cs'"
proof -
  from assms have "map fst (map (\<lambda>x. (site x, data (area x))) cs) =
                   map fst (map (\<lambda>x. (site x, data (area x))) cs')" by simp
  then have "map site cs = map site cs'" by (simp add: comp_def)
  then show ?thesis by (rule list_ex_site_cong)
qed

lemma blind_finish:
  assumes "same_shape st st'"
  shows "geometry (d\<lparr>cells := set_plus cell_eq (r_cells st)
                             (cell_of_area v (newCell st) col)\<rparr>) =
         geometry (d'\<lparr>cells := set_plus cell_eq (r_cells st')
                             (cell_of_area v (newCell st') col')\<rparr>)"
proof -
  from assms have m: "map (\<lambda>x. (site x, data (area x))) (r_cells st) =
                      map (\<lambda>x. (site x, data (area x))) (r_cells st')"
    and n: "data (newCell st) = data (newCell st')"
    by (simp_all add: same_shape_def)
  show ?thesis
    by (simp add: geometry_def geometry_set_plus m n shape_list_ex [OF m])
qed

lemma blind_run:
  assumes b: "colour_blind K" and s: "same_shape s0 s0'"
  shows "map_option geometry
           (cascade K v s0 \<bind>
              (\<lambda>st. Some (d\<lparr>cells := set_plus cell_eq (r_cells st)
                                        (cell_of_area v (newCell st) col)\<rparr>))) =
         map_option geometry
           (cascade K v s0' \<bind>
              (\<lambda>st. Some (d'\<lparr>cells := set_plus cell_eq (r_cells st)
                                         (cell_of_area v (newCell st) col')\<rparr>)))"
proof -
  from blind_cascade [OF b s, of v] obtain r r' where
    "cascade K v s0 = Some r" "cascade K v s0' = Some r'" "same_shape r r'" by blast
  then show ?thesis by (simp add: blind_finish)
qed

lemma blind_voronoi_plus:
  assumes b: "colour_blind K" and g: "geometry d = geometry d'" and v: "site c = site c'"
  shows "map_option geometry (voronoi_plus K bbs d c) =
         map_option geometry (voronoi_plus K bbs d' c')"
proof -
  from g have m: "map (\<lambda>x. (site x, data (area x))) (cells d) =
                  map (\<lambda>x. (site x, data (area x))) (cells d')"
    by (simp add: geometry_def)
  then have len: "length (cells d) = length (cells d')" by (rule map_eq_imp_length_eq)
  show ?thesis
  proof (cases "cells d = []")
    case True
    with len have "cells d' = []" by simp
    with True v show ?thesis
      by (simp add: voronoi_plus_def Let_def geometry_def geometry_set_plus)
  next
    case ne: False
    with len have ne': "cells d' \<noteq> []" by auto
    have loc: "locate K (cells d') (site c') = locate K (cells d) (site c)"
      using blind_locate [OF b m, of "site c"] v by simp
    show ?thesis
    proof (cases "locate K (cells d) (site c)")
      case None
      with ne ne' loc g show ?thesis by (simp add: voronoi_plus_def Let_def)
    next
      case (Some i)
      then have i: "i < length (cells d)" by (rule locate_Some_bound)
      note e = shape_nth [OF m i]
      let ?u = "site (cells d ! i)"
      let ?l = "perpendicularBisector K (site c) ?u"
      obtain a b0 r a' b' r' where
        cl: "clip K (area (cells d ! i)) ?l = (a, b0, r)"
            "clip K (area (cells d' ! i)) ?l = (a', b', r')"
        and eq: "map_option data a = map_option data a'"
                "map_option data b0 = map_option data b'"
                "map_option data r = map_option data r'"
        using blind_clip [OF b e(2)] by metis
      have cl': "clip K (area (cells d' ! i))
                   (perpendicularBisector K (site c') (site (cells d' ! i))) = (a', b', r')"
        using cl(2) v e(1) by simp
      show ?thesis
      proof (cases "\<exists>rA rB. a = Some rA \<and> b0 = Some rB")
        case False
        with eq have "\<not> (\<exists>rA rB. a' = Some rA \<and> b' = Some rB)"
          by (cases a; cases b0; cases a'; cases b') simp_all
        with False ne ne' Some loc cl(1) cl' g show ?thesis
          by (cases a; cases b0; cases a'; cases b') (simp_all add: voronoi_plus_def Let_def)
      next
        case True
        then obtain rA rB where ab: "a = Some rA" "b0 = Some rB" by blast
        with eq obtain rA' rB' where ab': "a' = Some rA'" "b' = Some rB'"
          and dA: "data rA = data rA'" and dB: "data rB = data rB'"
          by (cases a'; cases b') auto
        have cA: "contains K rA' (site (cells d' ! i)) = contains K rA ?u"
          using blind_contains [OF b dA, of ?u] e(1) by simp
        have cB: "contains K rB' (site (cells d' ! i)) = contains K rB ?u"
          using blind_contains [OF b dB, of ?u] e(1) by simp
        have dr: "data (maybe_polygon K r) = data (maybe_polygon K r')"
          using eq(3) by (cases r; cases r') (simp_all add: maybe_polygon_def)
        have up: "\<And>P P'. data P = data P' \<Longrightarrow>
                  map (\<lambda>x. (site x, data (area x))) ((cells d)[i := assign_area (cells d ! i) P]) =
                  map (\<lambda>x. (site x, data (area x))) ((cells d')[i := assign_area (cells d' ! i) P'])"
          using m e(1) by (simp add: map_update assign_area_def)
        have vp: "voronoi_plus K bbs d c =
                   (case split_cell K (cells d) i ?u rA rB of
                      None \<Rightarrow> Some (d\<lparr>cells := set_plus cell_eq (cells d)
                                                 (cell_of_area (site c) rB (cell.colour c))\<rparr>)
                    | Some (cs, newCell0) \<Rightarrow>
                        cascade K (site c)
                          \<lparr>r_cells = cs, usedCells = {i}, newCell = newCell0,
                           rC = maybe_polygon K r\<rparr> \<bind>
                        (\<lambda>st. Some (d\<lparr>cells := set_plus cell_eq (r_cells st)
                                     (cell_of_area (site c) (newCell st) (cell.colour c))\<rparr>)))"
          using ne Some cl(1) ab by (simp add: voronoi_plus_def Let_def)
        have vp': "voronoi_plus K bbs d' c' =
                   (case split_cell K (cells d') i (site (cells d' ! i)) rA' rB' of
                      None \<Rightarrow> Some (d'\<lparr>cells := set_plus cell_eq (cells d')
                                                 (cell_of_area (site c') rB' (cell.colour c'))\<rparr>)
                    | Some (cs, newCell0) \<Rightarrow>
                        cascade K (site c')
                          \<lparr>r_cells = cs, usedCells = {i}, newCell = newCell0,
                           rC = maybe_polygon K r'\<rparr> \<bind>
                        (\<lambda>st. Some (d'\<lparr>cells := set_plus cell_eq (r_cells st)
                                     (cell_of_area (site c') (newCell st) (cell.colour c'))\<rparr>)))"
          using ne' Some loc cl' ab' by (simp add: voronoi_plus_def Let_def)
        consider (A) "contains K rA ?u"
          | (B) "\<not> contains K rA ?u" "contains K rB ?u"
          | (N) "\<not> contains K rA ?u" "\<not> contains K rB ?u"
          by blast
        then show ?thesis
        proof cases
          case A
          have ss: "same_shape
                 \<lparr>r_cells = (cells d)[i := assign_area (cells d ! i) rA], usedCells = {i},
                  newCell = rB, rC = maybe_polygon K r\<rparr>
                 \<lparr>r_cells = (cells d')[i := assign_area (cells d' ! i) rA'], usedCells = {i},
                  newCell = rB', rC = maybe_polygon K r'\<rparr>"
            using up [OF dA] dB dr by (simp add: same_shape_def)
          from A cA show ?thesis
            unfolding vp vp' v [symmetric] by (simp add: split_cell_def blind_run [OF b ss])
        next
          case B
          have ss: "same_shape
                 \<lparr>r_cells = (cells d)[i := assign_area (cells d ! i) rB], usedCells = {i},
                  newCell = rA, rC = maybe_polygon K r\<rparr>
                 \<lparr>r_cells = (cells d')[i := assign_area (cells d' ! i) rB'], usedCells = {i},
                  newCell = rA', rC = maybe_polygon K r'\<rparr>"
            using up [OF dB] dA dr by (simp add: same_shape_def)
          from B cA cB show ?thesis
            unfolding vp vp' v [symmetric] by (simp add: split_cell_def blind_run [OF b ss])
        next
          case N
          with cA cB show ?thesis
            unfolding vp vp' v [symmetric]
            by (simp add: split_cell_def geometry_def geometry_set_plus m dB shape_list_ex [OF m])
        qed
      qed
    qed
  qed
qed

lemma box_kernel_colour_blind: "colour_blind box_kernel"
  unfolding colour_blind_def
  by (auto simp: box_kernel_def box_contains_def box_clip_def box_union_def box_def
        sides_def Let_def)

text \<open>
  C10. Inserting the bare site \<open>v\<close> is inserting the cell made of \<open>v\<close> and the default
  colour. Inserting any cell with site \<open>v\<close>, whatever its colour (and its area), gives a
  diagram with the same sites and the same polygons as inserting the bare site, and it
  returns exactly when that does. When the collaborators are colour-blind this also
  holds across diagrams: if \<open>d'\<close> has the same sites and the same polygons as \<open>d\<close>, with
  whatever colours on its cells and areas, inserting into \<open>d'\<close> gives the same sites and
  the same polygons as inserting into \<open>d\<close>. No colour decides which cells are split or
  which vertices the areas get.
\<close>

theorem colour_is_not_consulted:
  assumes "site c = v"
  shows "voronoi_plus_site K bbs d v =
           voronoi_plus K bbs d (cell_of_site K v (default_colour K))
       \<and> map_option geometry (voronoi_plus K bbs d c) =
           map_option geometry (voronoi_plus_site K bbs d v)
       \<and> (colour_blind K \<longrightarrow> geometry d' = geometry d \<longrightarrow>
            map_option geometry (voronoi_plus K bbs d' c) =
              map_option geometry (voronoi_plus_site K bbs d v))"
proof -
  have s: "site c = site (cell_of_site K v (default_colour K))"
    using assms by (simp add: cell_of_site_def)
  then have "map_option geometry (voronoi_plus K bbs d c) =
      map_option geometry (voronoi_plus K bbs d (cell_of_site K v (default_colour K)))"
    by (rule voronoi_plus_geometry)
  moreover have "colour_blind K \<longrightarrow> geometry d' = geometry d \<longrightarrow>
      map_option geometry (voronoi_plus K bbs d' c) =
      map_option geometry (voronoi_plus K bbs d (cell_of_site K v (default_colour K)))"
    using blind_voronoi_plus [OF _ _ s] by blast
  ultimately show ?thesis
    unfolding voronoi_plus_site_def by simp
qed

text \<open>
  Two diagrams with the same rectangles and different colours; the insertion of \<open>(500, 0)\<close>
  splits the cell of \<open>(0, 0)\<close> and the cascade clips the cell of \<open>(500, 1000)\<close> in both.
\<close>

theorem colour_is_not_consulted_witness:
  "site \<lparr>site = (500, 0), area = box 0 1 0 1 7, colour = 7\<rparr> = (500 :: rat, 0 :: rat)
   \<and> colour_blind box_kernel
   \<and> geometry \<lparr>cells = [\<lparr>site = (0, 0), area = box (- 1000) 1000 (- 1000) 200 3,
                           colour = 4 :: nat\<rparr>,
                         \<lparr>site = (500, 1000), area = box 0 1000 200 1000 5, colour = 6\<rparr>]\<rparr> =
       geometry \<lparr>cells = [box_cell (0, 0) (- 1000) 1000 (- 1000) 200,
                           box_cell (500, 1000) 0 1000 200 1000]\<rparr>
   \<and> map_option geometry
       (voronoi_plus box_kernel 1000
          \<lparr>cells = [\<lparr>site = (0, 0), area = box (- 1000) 1000 (- 1000) 200 3, colour = 4\<rparr>,
                    \<lparr>site = (500, 1000), area = box 0 1000 200 1000 5, colour = 6\<rparr>]\<rparr>
          \<lparr>site = (500, 0), area = box 0 1 0 1 7, colour = 7\<rparr>) =
     Some [((0, 0), [(- 1000, - 1000), (250, - 1000), (250, 200), (- 1000, 200)]),
           ((500, 1000), [(0, 500), (1000, 500), (1000, 1000), (0, 1000)]),
           ((500, 0), [(0, - 1000), (1000, - 1000), (1000, 500), (0, 500)])]"
proof -
  let ?c = "\<lparr>site = (500, 0), area = box 0 1 0 1 7, colour = 7\<rparr> :: (rat, nat) cell"
  let ?d = "\<lparr>cells = [box_cell (0, 0) (- 1000) 1000 (- 1000) 200,
                      box_cell (500, 1000) 0 1000 200 1000]\<rparr> :: (rat, nat) voronoi"
  let ?d' = "\<lparr>cells = [\<lparr>site = (0, 0), area = box (- 1000) 1000 (- 1000) 200 3, colour = 4\<rparr>,
                       \<lparr>site = (500, 1000), area = box 0 1000 200 1000 5, colour = 6\<rparr>]\<rparr>
             :: (rat, nat) voronoi"
  have h: "site ?c = (500, 0)" by simp
  have g: "geometry ?d' = geometry ?d"
    by (simp add: geometry_def box_cell_def box_def)
  have run: "map_option geometry (voronoi_plus_site box_kernel 1000 ?d (500, 0)) =
     Some [((0, 0), [(- 1000, - 1000), (250, - 1000), (250, 200), (- 1000, 200)]),
           ((500, 1000), [(0, 500), (1000, 500), (1000, 1000), (0, 1000)]),
           ((500, 0), [(0, - 1000), (1000, - 1000), (1000, 500), (0, 500)])]"
    by (simp add: geometry_def model_defs box_defs cascade.simps)
  from colour_is_not_consulted [OF h, of box_kernel 1000 ?d ?d']
  have "map_option geometry (voronoi_plus box_kernel 1000 ?d' ?c) =
        map_option geometry (voronoi_plus_site box_kernel 1000 ?d (500, 0))"
    using box_kernel_colour_blind g by blast
  with run h g box_kernel_colour_blind show ?thesis by simp
qed

end
